theory Spec2Isabelle
  imports Main "HOL-Library.Word"
begin

unbundle bit_operations_syntax

section \<open>The descriptor generator \<^verbatim>\<open>usb_descrip_gen.c\<close>\<close>

text \<open>
  The program is a single C file working on global variables. The embedding keeps the
  globals in one record and passes it through every function. Conventions:
  \<^item> \<^verbatim>\<open>u8\<close>, \<^verbatim>\<open>u16\<close>, \<^verbatim>\<open>u32\<close> are words of that width; arithmetic wraps.
  \<^item> The scratch arrays \<^verbatim>\<open>buf_2\<close> and \<^verbatim>\<open>buf_3\<close> (1024 bytes each) are stores from
    index to byte; only indices below \<open>BUF_SIZE\<close> exist, and every access is checked
    against that size. An access outside an array is undefined behaviour in C and is the
    error \<open>Out_of_bounds\<close> here.
  \<^item> The pointers \<^verbatim>\<open>a\<close> (always into \<^verbatim>\<open>buf_2\<close>) and \<^verbatim>\<open>z\<close> (always into \<^verbatim>\<open>buf_3\<close>) are
    offsets into their array, \<open>None\<close> for the initial null pointer.
  \<^item> The host is little-endian, as the source assumes when it reads four bytes as a
    \<^verbatim>\<open>u32\<close> and when it copies the first two bytes of a \<^verbatim>\<open>u32\<close> counter.
  \<^item> The four stream files are the lists of what has been written to them so far: the
    binary files byte by byte, the text files line by line, a line being the value handed
    to \<^verbatim>\<open>fprintf\<close> (\<^verbatim>\<open>%02X\<close> for USB2, \<^verbatim>\<open>%08X\<close> for USB3). The header file is the list
    of its \<^verbatim>\<open>parameter\<close> lines.
\<close>

type_synonym u8 = "8 word"
type_synonym u16 = "16 word"
type_synonym u32 = "32 word"

datatype error = Null_pointer | Out_of_bounds | Open_failed string

datatype usb_target = USB2 | USB3

text \<open>
  One line of \<^verbatim>\<open>usb_descrip.vh\<close>:
  \<^verbatim>\<open>parameter [msb:0] DESCR_<target>_<name> = 'd<value>;\<close>.
  Both numbers are printed with \<^verbatim>\<open>%d\<close>.
\<close>

record param_decl =
  target :: usb_target
  msb :: int
  pname :: string
  pvalue :: int

record state =
  bin_2 :: "u8 list"
  bin_3 :: "u8 list"
  init_2 :: "u8 list"
  init_3 :: "u32 list"
  descrip_vh :: "param_decl list"
  i_2 :: u32
  i_3 :: u32
  c_2 :: u32
  c_3 :: u32
  a :: "nat option"
  z :: "nat option"
  buf_2 :: "nat \<Rightarrow> u8"
  buf_3 :: "nat \<Rightarrow> u8"
  bytes_pending_2 :: u32
  bytes_pending_3 :: u32
  bitwidth_2 :: u8
  bitwidth_3 :: u8
  bytes_written_2 :: u32
  bytes_written_3 :: u32

definition BUF_SIZE :: nat where
  "BUF_SIZE = 1024"

text \<open>The globals as C initialises them: everything zero, the pointers null, no output.\<close>

definition init_state :: state where
  "init_state = \<lparr> bin_2 = [], bin_3 = [], init_2 = [], init_3 = [], descrip_vh = [],
     i_2 = 0, i_3 = 0, c_2 = 0, c_3 = 0, a = None, z = None,
     buf_2 = (\<lambda>_. 0), buf_3 = (\<lambda>_. 0),
     bytes_pending_2 = 0, bytes_pending_3 = 0, bitwidth_2 = 0, bitwidth_3 = 0,
     bytes_written_2 = 0, bytes_written_3 = 0 \<rparr>"

subsection \<open>Statements and sequencing\<close>

text \<open>A statement maps the globals to new globals or stops with an error.\<close>

type_synonym stmt = "state \<Rightarrow> error + state"

fun steps :: "stmt list \<Rightarrow> stmt" where
  "steps [] s = Inr s"
| "steps (f # fs) s = (case f s of Inl e \<Rightarrow> Inl e | Inr s' \<Rightarrow> steps fs s')"

definition ok :: "(state \<Rightarrow> state) \<Rightarrow> stmt" where
  "ok f s = Inr (f s)"

text \<open>The bytes of an array as a memory region, and a block of bytes stored at an index.\<close>

definition array_mem :: "(nat \<Rightarrow> u8) \<Rightarrow> u8 list" where
  "array_mem b = map b [0..<BUF_SIZE]"

definition store_bytes :: "(nat \<Rightarrow> u8) \<Rightarrow> nat \<Rightarrow> u8 list \<Rightarrow> (nat \<Rightarrow> u8)" where
  "store_bytes b k vs = (\<lambda>i. if k \<le> i \<and> i < k + length vs then vs ! (i - k) else b i)"

text \<open>\<^verbatim>\<open>*a++ = v;\<close> and \<^verbatim>\<open>*z++ = v;\<close>\<close>

definition put_a :: "u8 \<Rightarrow> stmt" where
  "put_a v s =
     (case a s of
        None \<Rightarrow> Inl Null_pointer
      | Some k \<Rightarrow>
          if k < BUF_SIZE then Inr (s\<lparr>buf_2 := (buf_2 s)(k := v), a := Some (k + 1)\<rparr>)
          else Inl Out_of_bounds)"

definition put_z :: "u8 \<Rightarrow> stmt" where
  "put_z v s =
     (case z s of
        None \<Rightarrow> Inl Null_pointer
      | Some k \<Rightarrow>
          if k < BUF_SIZE then Inr (s\<lparr>buf_3 := (buf_3 s)(k := v), z := Some (k + 1)\<rparr>)
          else Inl Out_of_bounds)"

text \<open>\<^verbatim>\<open>*(z-d) = v;\<close>\<close>

definition poke_z_back :: "nat \<Rightarrow> u8 \<Rightarrow> stmt" where
  "poke_z_back d v s =
     (case z s of
        None \<Rightarrow> Inl Null_pointer
      | Some k \<Rightarrow>
          if d \<le> k \<and> k - d < BUF_SIZE then Inr (s\<lparr>buf_3 := (buf_3 s)(k - d := v)\<rparr>)
          else Inl Out_of_bounds)"

text \<open>
  \<^verbatim>\<open>memcpy(dst, src, n);\<close> with \<^verbatim>\<open>dst\<close> a pointer into \<^verbatim>\<open>buf_3\<close> and \<^verbatim>\<open>src\<close> a pointer
  into \<^verbatim>\<open>buf_2\<close>.
\<close>

definition memcpy_3_from_2 :: "nat option \<Rightarrow> nat option \<Rightarrow> nat \<Rightarrow> stmt" where
  "memcpy_3_from_2 dst src n s =
     (case (dst, src) of
        (Some k, Some j) \<Rightarrow>
          if k + n \<le> BUF_SIZE \<and> j + n \<le> BUF_SIZE
          then Inr (s\<lparr>buf_3 := store_bytes (buf_3 s) k (map (buf_2 s) [j..<j + n])\<rparr>)
          else Inl Out_of_bounds
      | _ \<Rightarrow> Inl Null_pointer)"

text \<open>
  \<^verbatim>\<open>memcpy(a, src, n);\<close> where \<open>src\<close> is the initialised part of a local array: reading
  past it is an error.
\<close>

definition memcpy_a :: "u8 list \<Rightarrow> nat \<Rightarrow> stmt" where
  "memcpy_a src n s =
     (case a s of
        None \<Rightarrow> Inl Null_pointer
      | Some k \<Rightarrow>
          if k + n \<le> BUF_SIZE \<and> n \<le> length src
          then Inr (s\<lparr>buf_2 := store_bytes (buf_2 s) k (take n src)\<rparr>)
          else Inl Out_of_bounds)"

text \<open>\<^verbatim>\<open>z += n;\<close>. Moving a null pointer is an error.\<close>

definition advance_z :: "nat \<Rightarrow> stmt" where
  "advance_z n s =
     (case z s of None \<Rightarrow> Inl Null_pointer | Some k \<Rightarrow> Inr (s\<lparr>z := Some (k + n)\<rparr>))"

subsection \<open>Stream output\<close>

text \<open>
  \<^verbatim>\<open>write_buf8(buf, size)\<close>: the argument \<open>mem\<close> is the memory readable from the pointer
  \<^verbatim>\<open>buf\<close> on. The loop counter is a \<^verbatim>\<open>u32\<close>; it cannot wrap, since it stops at \<open>sz\<close>, the argument \<^verbatim>\<open>size\<close>.
\<close>

function write_buf8_loop :: "u8 list \<Rightarrow> u32 \<Rightarrow> u32 \<Rightarrow> stmt" where
  "write_buf8_loop mem sz i s =
     (if i < sz then
        (if unat i < length mem then
           write_buf8_loop mem sz (i + 1)
             (s\<lparr>init_2 := init_2 s @ [mem ! unat i],
                bin_2 := bin_2 s @ [mem ! unat i],
                bytes_written_2 := bytes_written_2 s + 1\<rparr>)
         else Inl Out_of_bounds)
      else Inr s)"
  by pat_completeness auto
termination
proof (relation "measure (\<lambda>(mem, sz, i, s). unat sz - unat i)")
  show "wf (measure (\<lambda>(mem, sz, i, s). unat sz - unat i))"
    by simp
next
  fix mem :: "u8 list" and sz i :: u32 and s :: state
  assume lt: "i < sz"
  then have "unat i < unat sz"
    by (simp add: word_less_nat_alt)
  moreover have "unat sz < 2 ^ 32"
    using unsigned_less [of sz, where ?'a = nat] by simp
  ultimately have "unat i + 1 < 2 ^ 32"
    by simp
  then have "unat (i + 1) = unat i + 1"
    by (simp add: unat_word_ariths)
  with \<open>unat i < unat sz\<close> show
    "((mem, sz, i + 1,
        s\<lparr>init_2 := init_2 s @ [mem ! unat i], bin_2 := bin_2 s @ [mem ! unat i],
          bytes_written_2 := bytes_written_2 s + 1\<rparr>),
       (mem, sz, i, s)) \<in> measure (\<lambda>(mem, sz, i, s). unat sz - unat i)"
    by simp
qed

definition write_buf8 :: "u8 list \<Rightarrow> u32 \<Rightarrow> stmt" where
  "write_buf8 mem sz s = write_buf8_loop mem sz 0 s"

text \<open>
  \<^verbatim>\<open>write_buf32(buf, size)\<close>. \<open>load32\<close> is \<^verbatim>\<open>*buf\<close> on the little-endian host, \<open>bswap\<close> the
  expression that reverses the four bytes. The counter \<open>i\<close> is a \<^verbatim>\<open>u32\<close> stepping by 4
  and may wrap; the read pointer, here the byte offset \<open>p\<close>, moves on by one word in every
  round whatever \<open>i\<close> does. The binary file receives the four bytes as they are in memory,
  the text file the reversed value.
\<close>

definition load32 :: "u8 list \<Rightarrow> nat \<Rightarrow> u32" where
  "load32 mem p =
     ucast (mem ! p) OR push_bit 8 (ucast (mem ! (p + 1)))
       OR push_bit 16 (ucast (mem ! (p + 2))) OR push_bit 24 (ucast (mem ! (p + 3)))"

definition bswap :: "u32 \<Rightarrow> u32" where
  "bswap w =
     push_bit 24 (w AND 0xff) OR push_bit 8 (w AND 0xff00)
       OR drop_bit 8 (w AND 0xff0000) OR drop_bit 24 (w AND 0xff000000)"

function write_buf32_loop :: "u8 list \<Rightarrow> u32 \<Rightarrow> u32 \<Rightarrow> nat \<Rightarrow> stmt" where
  "write_buf32_loop mem sz i p s =
     (if i < sz then
        (if p + 4 \<le> length mem then
           write_buf32_loop mem sz (i + 4) (p + 4)
             (s\<lparr>init_3 := init_3 s @ [bswap (load32 mem p)],
                bin_3 := bin_3 s @ take 4 (drop p mem),
                bytes_written_3 := bytes_written_3 s + 4\<rparr>)
         else Inl Out_of_bounds)
      else Inr s)"
  by pat_completeness auto
termination
  by (relation "measure (\<lambda>(mem, sz, i, p, s). length mem - p)") auto

definition write_buf32 :: "u8 list \<Rightarrow> u32 \<Rightarrow> stmt" where
  "write_buf32 mem sz s = write_buf32_loop mem sz 0 0 s"

definition write_buf :: "u8 list \<Rightarrow> u32 \<Rightarrow> stmt" where
  "write_buf mem sz = steps [write_buf8 mem sz, write_buf32 mem sz]"

text \<open>The scratch arrays handed to the writers: \<^verbatim>\<open>write_buf8(buf_2, n)\<close> and so on.\<close>

definition write_buf8_buf_2 :: "u32 \<Rightarrow> stmt" where
  "write_buf8_buf_2 sz s = write_buf8 (array_mem (buf_2 s)) sz s"

definition write_buf32_buf_2 :: "u32 \<Rightarrow> stmt" where
  "write_buf32_buf_2 sz s = write_buf32 (array_mem (buf_2 s)) sz s"

definition write_buf32_buf_3 :: "u32 \<Rightarrow> stmt" where
  "write_buf32_buf_3 sz s = write_buf32 (array_mem (buf_3 s)) sz s"

definition write_buf_buf_2 :: "u32 \<Rightarrow> stmt" where
  "write_buf_buf_2 sz s = write_buf (array_mem (buf_2 s)) sz s"

subsection \<open>The offset table\<close>

text \<open>
  \<^verbatim>\<open>print_offsets(name, for_usb2, for_usb3)\<close> prints \<^verbatim>\<open>bitwidth_2-1\<close> (an \<^verbatim>\<open>int\<close> after
  promotion) and \<^verbatim>\<open>i_2\<close> (a \<^verbatim>\<open>u32\<close> read by \<^verbatim>\<open>%d\<close>, so as a signed value), and the same
  for USB3.
\<close>

definition print_offsets :: "string \<Rightarrow> u8 \<Rightarrow> u8 \<Rightarrow> state \<Rightarrow> state" where
  "print_offsets name for_usb2 for_usb3 s =
     s\<lparr>descrip_vh := descrip_vh s
        @ (if for_usb2 \<noteq> 0
           then [\<lparr>target = USB2, msb = uint (bitwidth_2 s) - 1, pname = name,
                  pvalue = sint (i_2 s)\<rparr>]
           else [])
        @ (if for_usb3 \<noteq> 0
           then [\<lparr>target = USB3, msb = uint (bitwidth_3 s) - 1, pname = name,
                  pvalue = sint (i_3 s)\<rparr>]
           else [])\<rparr>"

subsection \<open>Device descriptor and device qualifier\<close>

text \<open>\<^verbatim>\<open>x & 0xff\<close> and \<^verbatim>\<open>x >> 8\<close> of a 16-bit value, stored into a byte.\<close>

definition lo_byte :: "u16 \<Rightarrow> u8" where
  "lo_byte x = ucast (x AND 0xff)"

definition hi_byte :: "u16 \<Rightarrow> u8" where
  "hi_byte x = ucast (drop_bit 8 x)"

definition add_device_qual :: "u16 \<Rightarrow> u8 \<Rightarrow> u8 \<Rightarrow> u8 \<Rightarrow> u8 \<Rightarrow> u8 \<Rightarrow> stmt" where
  "add_device_qual usb_spec class_code subclass protocol_code max_size_ep0
       num_possible_config =
     steps [
       ok (\<lambda>s. s\<lparr>a := Some 0\<rparr>),
       ok (print_offsets ''DEVICE_QUAL'' 1 0),
       put_a 0x0A,
       put_a 0x06,
       put_a (if usb_spec = 0x300 then lo_byte 0x210 else lo_byte 0x200),
       put_a (if usb_spec = 0x300 then hi_byte 0x210 else hi_byte 0x200),
       put_a class_code,
       put_a subclass,
       put_a protocol_code,
       put_a max_size_ep0,
       put_a num_possible_config,
       put_a 0,
       write_buf8_buf_2 0xA]"

text \<open>\<^verbatim>\<open>a--;\<close> in the device descriptor.\<close>

definition retreat_a :: stmt where
  "retreat_a s =
     (case a s of
        None \<Rightarrow> Inl Null_pointer
      | Some k \<Rightarrow> if 0 < k then Inr (s\<lparr>a := Some (k - 1)\<rparr>) else Inl Out_of_bounds)"

definition add_device_descr ::
  "u16 \<Rightarrow> u8 \<Rightarrow> u8 \<Rightarrow> u8 \<Rightarrow> u8 \<Rightarrow> u16 \<Rightarrow> u16 \<Rightarrow> u16 \<Rightarrow> u8 \<Rightarrow> u8 \<Rightarrow> u8 \<Rightarrow> u8 \<Rightarrow> stmt" where
  "add_device_descr usb_spec class_code subclass protocol_code max_size_ep0 vid pid dev_num
       idx_mfg idx_prod idx_serial num_possible_config =
     steps [
       ok (\<lambda>s. s\<lparr>a := Some 0\<rparr>),
       ok (print_offsets ''DEVICE'' 1 1),
       put_a 0x12,
       put_a 0x01,
       put_a (if usb_spec = 0x300 then lo_byte 0x210 else lo_byte 0x200),
       put_a (if usb_spec = 0x300 then hi_byte 0x210 else hi_byte 0x200),
       write_buf8_buf_2 4,
       ok (\<lambda>s. s\<lparr>a := Some 2\<rparr>),
       put_a (lo_byte 0x300),
       put_a (hi_byte 0x300),
       write_buf32_buf_2 4,
       ok (\<lambda>s. s\<lparr>a := Some 0\<rparr>),
       put_a class_code,
       put_a subclass,
       put_a protocol_code,
       put_a max_size_ep0,
       write_buf8_buf_2 4,
       retreat_a,
       put_a 0x09,
       write_buf32_buf_2 4,
       ok (\<lambda>s. s\<lparr>a := Some 0\<rparr>),
       put_a (lo_byte vid),
       put_a (hi_byte vid),
       put_a (lo_byte pid),
       put_a (hi_byte pid),
       put_a (lo_byte dev_num),
       put_a (hi_byte dev_num),
       put_a idx_mfg,
       put_a idx_prod,
       put_a idx_serial,
       put_a num_possible_config,
       write_buf_buf_2 10,
       add_device_qual usb_spec class_code subclass protocol_code max_size_ep0
         num_possible_config]"

subsection \<open>The configuration group\<close>

text \<open>The first two bytes of a \<^verbatim>\<open>u32\<close> in memory, as \<^verbatim>\<open>memcpy(dst, &counter, 2)\<close> reads them.\<close>

definition first_two_bytes :: "u32 \<Rightarrow> u8 list" where
  "first_two_bytes w = [ucast w, ucast (drop_bit 8 w)]"

definition add_config_start :: "u16 \<Rightarrow> u8 \<Rightarrow> u32 \<Rightarrow> u8 \<Rightarrow> stmt" where
  "add_config_start usb_spec attrib power_ma num_endpoints =
     steps [
       ok (\<lambda>s. s\<lparr>a := Some 0\<rparr>),
       ok (\<lambda>s. s\<lparr>z := Some 0\<rparr>),
       ok (\<lambda>s. s\<lparr>c_2 := i_2 s\<rparr>),
       ok (\<lambda>s. s\<lparr>c_3 := i_3 s\<rparr>),
       ok (print_offsets ''CONFIG'' 1 1),
       ok (\<lambda>s. s\<lparr>bytes_pending_2 := 0\<rparr>),
       ok (\<lambda>s. s\<lparr>bytes_pending_3 := 0\<rparr>),
       put_a 0x09,
       put_a 0x02,
       put_a (lo_byte 0xffff),
       put_a (hi_byte 0xffff),
       put_a 0x01,
       put_a 0x01,
       put_a 0x00,
       put_a attrib,
       put_a (ucast (if usb_spec = 0x300 then power_ma div 8 else power_ma div 2)),
       ok (\<lambda>s. s\<lparr>bytes_pending_2 := bytes_pending_2 s + 0x9\<rparr>),
       ok (\<lambda>s. s\<lparr>bytes_pending_3 := bytes_pending_3 s + 0x9\<rparr>),
       put_a 0x09,
       put_a 0x04,
       put_a 0x00,
       put_a 0x00,
       put_a num_endpoints,
       put_a 0xFF,
       put_a 0xFF,
       put_a 0xFF,
       put_a 0x02,
       ok (\<lambda>s. s\<lparr>bytes_pending_2 := bytes_pending_2 s + 0x9\<rparr>),
       ok (\<lambda>s. s\<lparr>bytes_pending_3 := bytes_pending_3 s + 0x9\<rparr>),
       (\<lambda>s. memcpy_3_from_2 (Some 0) (Some 0) (unat (bytes_pending_2 s)) s),
       (\<lambda>s. advance_z (unat (bytes_pending_3 s)) s)]"

definition add_endpoint :: "u8 \<Rightarrow> u8 \<Rightarrow> u8 \<Rightarrow> u16 \<Rightarrow> u8 \<Rightarrow> u8 \<Rightarrow> u8 \<Rightarrow> u16 \<Rightarrow> stmt" where
  "add_endpoint idx dir attrib max_pkt interval max_burst attrib_3 bytes_per_interval s =
     (let c = a s in
      steps [
        put_a 0x07,
        put_a 0x05,
        put_a (idx OR (if dir \<noteq> 0 then 0x80 else 0x0)),
        put_a attrib,
        put_a (lo_byte max_pkt),
        put_a (hi_byte max_pkt),
        put_a interval,
        ok (\<lambda>s. s\<lparr>bytes_pending_2 := bytes_pending_2 s + 0x7\<rparr>),
        ok (\<lambda>s. s\<lparr>bytes_pending_3 := bytes_pending_3 s + 0x7\<rparr>),
        (\<lambda>s. memcpy_3_from_2 (z s) c 0x7 s),
        advance_z 0x7,
        poke_z_back 2 0x04,
        poke_z_back 3 0x00,
        put_z 0x06,
        put_z 0x30,
        put_z (max_burst - 1),
        put_z attrib_3,
        put_z (lo_byte bytes_per_interval),
        put_z (hi_byte bytes_per_interval),
        ok (\<lambda>s. s\<lparr>bytes_pending_3 := bytes_pending_3 s + 0x6\<rparr>)] s)"

definition add_config_end :: stmt where
  "add_config_end s =
     (let c = a s in
      steps [
        put_a 0x09,
        put_a 0x04,
        put_a 0x00,
        put_a 0x01,
        put_a 0x0,
        put_a 0xFF,
        put_a 0xFF,
        put_a 0xFF,
        put_a 0x02,
        ok (\<lambda>s. s\<lparr>bytes_pending_2 := bytes_pending_2 s + 0x9\<rparr>),
        ok (\<lambda>s. s\<lparr>bytes_pending_3 := bytes_pending_3 s + 0x9\<rparr>),
        (\<lambda>s. memcpy_3_from_2 (z s) c 0x9 s),
        advance_z 0x9,
        ok (\<lambda>s. s\<lparr>buf_2 := store_bytes (buf_2 s) 2 (first_two_bytes (bytes_pending_2 s))\<rparr>),
        ok (\<lambda>s. s\<lparr>buf_3 := store_bytes (buf_3 s) 2 (first_two_bytes (bytes_pending_3 s))\<rparr>),
        (\<lambda>s. write_buf8_buf_2 (bytes_pending_2 s) s),
        (\<lambda>s. write_buf32_buf_3 (bytes_pending_3 s) s)] s)"

subsection \<open>BOS descriptor\<close>

text \<open>\<^verbatim>\<open>z - buf_3\<close>, the number of bytes between the array's start and \<^verbatim>\<open>z\<close>.\<close>

definition z_minus_buf_3 :: "state \<Rightarrow> error + u32" where
  "z_minus_buf_3 s = (case z s of None \<Rightarrow> Inl Null_pointer | Some k \<Rightarrow> Inr (word_of_nat k))"

definition add_bos :: stmt where
  "add_bos =
     steps [
       ok (\<lambda>s. s\<lparr>z := Some 0\<rparr>),
       ok (print_offsets ''BOS    '' 0 1),
       put_z 0x05,
       put_z 0x0F,
       put_z 0x16,
       put_z 0x00,
       put_z 0x02,
       put_z 0x07,
       put_z 0x10,
       put_z 0x02,
       put_z 0x02,
       put_z 0x00,
       put_z 0x00,
       put_z 0x00,
       put_z 0x0A,
       put_z 0x10,
       put_z 0x03,
       put_z 0x00,
       put_z 0x0E,
       put_z 0x00,
       put_z 0x02,
       put_z 0x08,
       put_z 0x64,
       put_z 0x00,
       (\<lambda>s. case z_minus_buf_3 s of Inl e \<Rightarrow> Inl e | Inr n \<Rightarrow> write_buf32_buf_3 n s)]"

subsection \<open>String descriptors and the set markers\<close>

text \<open>
  A C string argument is given by the bytes of its literal; the compiler appends the
  terminating zero, and \<^verbatim>\<open>strlen\<close> counts up to the first zero byte.
\<close>

definition strlen :: "u8 list \<Rightarrow> nat" where
  "strlen str = length (takeWhile (\<lambda>c. c \<noteq> 0) str)"

text \<open>
  The platform. \<^verbatim>\<open>wchar_t\<close> and \<^verbatim>\<open>mbstowcs\<close> belong to the C implementation, and the
  source does not fix them: \<^verbatim>\<open>sizeof(wchar_t)\<close> is 2 on Windows and 4 with glibc. It is
  the parameter \<open>wchar_size\<close> of the model. The program never calls \<^verbatim>\<open>setlocale\<close>, so
  \<^verbatim>\<open>mbstowcs\<close> works in the "C" locale: a byte below 0x80 becomes the wide character
  of the same value, which lies in memory low byte first (as \<open>load32\<close> reads it). What
  happens to other bytes depends on the library (glibc stops with an error); for a text
  with such a byte the model takes nothing of \<^verbatim>\<open>w_str\<close> as written.
  \<open>mbstowcs wchar_size str n\<close> gives the bytes of \<^verbatim>\<open>w_str\<close> that the call has written:
  at most \<open>n\<close> wide characters, and the terminating wide zero if there is room for it.
\<close>

definition wchar_bytes :: "nat \<Rightarrow> u8 \<Rightarrow> u8 list" where
  "wchar_bytes wchar_size c = c # replicate (wchar_size - 1) 0"

definition mbstowcs :: "nat \<Rightarrow> u8 list \<Rightarrow> nat \<Rightarrow> u8 list" where
  "mbstowcs wchar_size str n =
     (if list_all (\<lambda>c. c < 0x80) (take n (takeWhile (\<lambda>c. c \<noteq> 0) str))
      then concat (map (wchar_bytes wchar_size) (take n (takeWhile (\<lambda>c. c \<noteq> 0) str)))
             @ (if strlen str < n then replicate wchar_size 0 else [])
      else [])"

text \<open>\<^verbatim>\<open>sprintf(temp, "STRING%d", idx)\<close>: the decimal digits of a number.\<close>

fun decimal :: "nat \<Rightarrow> string" where
  "decimal n =
     (if n < 10 then [''0123456789'' ! n]
      else decimal (n div 10) @ [''0123456789'' ! (n mod 10)])"

declare decimal.simps [simp del]

text \<open>
  \<^verbatim>\<open>add_string(idx, str)\<close> on a platform with \<^verbatim>\<open>sizeof(wchar_t) = wchar_size\<close>. The local
  \<^verbatim>\<open>w_str\<close> is not initialised; \<open>w_str\<close> below is the
  part of it that has been written when the descriptor body is copied out of it. For
  index 0 that is two bytes copied from the argument, which must be there to be read.
\<close>

definition add_string :: "nat \<Rightarrow> u8 \<Rightarrow> u8 list \<Rightarrow> stmt" where
  "add_string wchar_size idx str =
     (let len :: u32 = (if idx = 0 then 4 else word_of_nat (strlen str * 2 + 2));
          w_str = (if 0 < idx then mbstowcs wchar_size str 128 else take 2 (str @ [0]))
      in steps [
        ok (\<lambda>s. s\<lparr>buf_2 := (\<lambda>_. 0)\<rparr>),
        ok (\<lambda>s. s\<lparr>a := Some 0\<rparr>),
        ok (print_offsets (''STRING'' @ decimal (unat idx)) 1 1),
        (\<lambda>s. if 0 < idx \<or> 2 \<le> length (str @ [0]) then Inr s else Inl Out_of_bounds),
        put_a (ucast len),
        put_a 0x03,
        memcpy_a w_str (unat (len - 2)),
        write_buf_buf_2 len])"

text \<open>
  \<^verbatim>\<open>add_set()\<close> hands one-byte pushes of the literals \<^verbatim>\<open>"\x00"\<close> and \<^verbatim>\<open>"\x01"\<close> to
  \<^verbatim>\<open>write_buf\<close>. A literal is two bytes long with its terminator; \<open>after0\<close> and \<open>after1\<close>
  are the bytes that lie behind the two literals in the program's memory.
\<close>

definition add_set :: "u8 list \<Rightarrow> u8 list \<Rightarrow> stmt" where
  "add_set after0 after1 =
     steps [
       ok (print_offsets ''CONFUNSET'' 1 1),
       write_buf ([0x00, 0x00] @ after0) 1,
       ok (print_offsets ''CONFSET'' 1 1),
       write_buf ([0x01, 0x00] @ after1) 1]"

subsection \<open>Padding and the driver\<close>

text \<open>
  The padding loops compare a \<^verbatim>\<open>u32\<close> counter with \<^verbatim>\<open>pow(2, bitwidth)\<close>. Both sides are
  whole numbers that a \<^verbatim>\<open>double\<close> holds exactly (the exponent is below 256), so the
  comparison is the one on natural numbers. The loops need not end: the result is
  \<open>None\<close> when they do not.
\<close>

partial_function (option) pad_2 :: "state \<Rightarrow> (error + state) option" where
  "pad_2 s =
     (if unat (bytes_written_2 s) < 2 ^ unat (bitwidth_2 s) then
        (case write_buf8 [0x00, 0x00] 1 s of
           Inl e \<Rightarrow> Some (Inl e)
         | Inr s' \<Rightarrow> pad_2 s')
      else Some (Inr s))"

partial_function (option) pad_3 :: "state \<Rightarrow> (error + state) option" where
  "pad_3 s =
     (if unat (bytes_written_3 s) < 2 ^ unat (bitwidth_3 s) * 4 then
        (case write_buf32 [0x00, 0x00, 0x00, 0x00, 0x00] 1 s of
           Inl e \<Rightarrow> Some (Inl e)
         | Inr s' \<Rightarrow> pad_3 s')
      else Some (Inr s))"

declare pad_2.simps [code] pad_3.simps [code]

definition pad :: "state \<Rightarrow> (error + state) option" where
  "pad s =
     (case pad_2 s of
        None \<Rightarrow> None
      | Some (Inl e) \<Rightarrow> Some (Inl e)
      | Some (Inr s') \<Rightarrow> pad_3 s')"

definition filename_usb2_init :: string where
  "filename_usb2_init = ''./usb2/usb2_descrip_rom.init''"

definition filename_usb3_init :: string where
  "filename_usb3_init = ''./usb3/usb3_descrip_rom.init''"

definition filename_usb2_bin :: string where
  "filename_usb2_bin = ''./usb2/usb2_descrip.bin''"

definition filename_usb3_bin :: string where
  "filename_usb3_bin = ''./usb3/usb3_descrip.bin''"

definition filename_descrip_vh :: string where
  "filename_descrip_vh = ''usb_descrip.vh''"

text \<open>\<^verbatim>\<open>fail(fopen(...), str)\<close>: \<open>opened\<close> tells whether the file could be opened.\<close>

definition fail :: "bool \<Rightarrow> string \<Rightarrow> stmt" where
  "fail opened str s = (if opened then Inr s else Inl (Open_failed str))"

definition c_string :: "string \<Rightarrow> u8 list" where
  "c_string cs = map (\<lambda>c. word_of_nat (of_char c)) cs"

text \<open>The two "hacks" of \<^verbatim>\<open>main\<close> that export a length through the offset variables.\<close>

definition print_config_len :: stmt where
  "print_config_len s =
     (let temp1 = i_2 s; temp2 = i_3 s in
      steps [
        ok (\<lambda>s. s\<lparr>i_2 := bytes_pending_2 s\<rparr>),
        ok (\<lambda>s. s\<lparr>i_3 := bytes_pending_3 s\<rparr>),
        ok (print_offsets ''CONFIG_LEN'' 1 1),
        ok (\<lambda>s. s\<lparr>i_2 := temp1\<rparr>),
        ok (\<lambda>s. s\<lparr>i_3 := temp2\<rparr>)] s)"

definition print_bos_len :: stmt where
  "print_bos_len s =
     (let temp2 = i_3 s in
      steps [
        (\<lambda>s. case z_minus_buf_3 s of Inl e \<Rightarrow> Inl e | Inr n \<Rightarrow> Inr (s\<lparr>i_3 := n\<rparr>)),
        ok (print_offsets ''BOS_LEN'' 0 1),
        ok (\<lambda>s. s\<lparr>i_3 := temp2\<rparr>)] s)"

text \<open>
  \<^verbatim>\<open>main\<close> up to the padding, then the whole run. \<open>fopen_ok\<close> tells which files can be
  opened; \<open>after0\<close> and \<open>after1\<close> are passed on to \<open>add_set\<close>.
\<close>

definition main_emit :: "nat \<Rightarrow> (string \<Rightarrow> bool) \<Rightarrow> u8 list \<Rightarrow> u8 list \<Rightarrow> stmt" where
  "main_emit wchar_size fopen_ok after0 after1 =
     steps [
       ok (\<lambda>s. s\<lparr>i_2 := 0\<rparr>),
       ok (\<lambda>s. s\<lparr>i_3 := 0\<rparr>),
       fail (fopen_ok filename_usb2_init) ''Failed opening USB2.0 INIT'',
       fail (fopen_ok filename_usb3_init) ''Failed opening USB3.0 INIT'',
       fail (fopen_ok filename_usb2_bin) ''Failed opening USB2.0 BIN'',
       fail (fopen_ok filename_usb3_bin) ''Failed opening USB3.0 BIN'',
       fail (fopen_ok filename_descrip_vh) ''Failed opening descriptor include'',
       ok (\<lambda>s. s\<lparr>bitwidth_2 := 8\<rparr>),
       ok (\<lambda>s. s\<lparr>bitwidth_3 := 7\<rparr>),
       add_device_descr 0x300 0xFF 0xFF 0xFF 64 0x1D50 0x605A 0x1 1 2 3 1,
       add_config_start 0x300 0x80 500 2,
       add_endpoint 1 1 2 512 0x1 16 0x00 0,
       add_endpoint 2 0 2 512 0x1 16 0x00 0,
       add_config_end,
       print_config_len,
       add_bos,
       print_bos_len,
       add_string wchar_size 0 [0x09, 0x04, 0x00],
       add_string wchar_size 1 (c_string ''Great Scott Gadgets''),
       add_string wchar_size 2 (c_string ''Daisho USB test''),
       add_string wchar_size 3 (c_string ''DAISHOUSB000''),
       add_set after0 after1,
       ok (print_offsets ''EOF     '' 1 1)]"

definition main ::
  "nat \<Rightarrow> (string \<Rightarrow> bool) \<Rightarrow> u8 list \<Rightarrow> u8 list \<Rightarrow> (error + state) option" where
  "main wchar_size fopen_ok after0 after1 =
     (case main_emit wchar_size fopen_ok after0 after1 init_state of
        Inl e \<Rightarrow> Some (Inl e)
      | Inr s \<Rightarrow> pad s)"

section \<open>Notions used by the properties\<close>

text \<open>
  The number of 32-bit words a push of \<open>sz\<close> bytes takes, and the little-endian word
  that starts at index \<open>p\<close> of a scratch array.
\<close>

definition nwords :: "u32 \<Rightarrow> nat" where
  "nwords sz = (unat sz + 3) div 4"

definition word_at :: "(nat \<Rightarrow> u8) \<Rightarrow> nat \<Rightarrow> u32" where
  "word_at b p =
     ucast (b p) OR push_bit 8 (ucast (b (p + 1)))
       OR push_bit 16 (ucast (b (p + 2))) OR push_bit 24 (ucast (b (p + 3)))"

text \<open>
  The text file of the USB3 stream as it follows from the binary file: one reversed word
  for every four bytes.
\<close>

definition text_words :: "u8 list \<Rightarrow> u32 list" where
  "text_words bs = map (\<lambda>j. bswap (load32 bs (4 * j))) [0..<length bs div 4]"

text \<open>A 16-bit descriptor field read from its two bytes, low byte first.\<close>

definition le16 :: "u8 \<Rightarrow> u8 \<Rightarrow> u16" where
  "le16 lo hi = ucast lo OR push_bit 8 (ucast hi)"

text \<open>
  Two runs of the device descriptor encoder from the initial globals: the one of \<^verbatim>\<open>main\<close>
  with its bit widths, and one that asks for USB 2.0 only.
\<close>

definition main_device_run :: "error + state" where
  "main_device_run =
     add_device_descr 0x300 0xFF 0xFF 0xFF 64 0x1D50 0x605A 0x1 1 2 3 1
       (init_state\<lparr>bitwidth_2 := 8, bitwidth_3 := 7\<rparr>)"

definition usb2_only_device_run :: "error + state" where
  "usb2_only_device_run =
     add_device_descr 0x200 0xFF 0xFF 0xFF 64 0x1D50 0x605A 0x1 1 2 3 1 init_state"

text \<open>
  A configuration group with any number of endpoints: the arguments of one
  \<^verbatim>\<open>add_endpoint\<close> call as a record, and the calls from \<^verbatim>\<open>add_config_start\<close> to
  \<^verbatim>\<open>add_config_end\<close> in the order in which \<^verbatim>\<open>main\<close> makes them.
\<close>

record endpoint =
  ep_idx :: u8
  ep_dir :: u8
  ep_attrib :: u8
  ep_max_pkt :: u16
  ep_interval :: u8
  ep_max_burst :: u8
  ep_attrib_3 :: u8
  ep_bytes_per_interval :: u16

definition add_endpoint_of :: "endpoint \<Rightarrow> stmt" where
  "add_endpoint_of e =
     add_endpoint (ep_idx e) (ep_dir e) (ep_attrib e) (ep_max_pkt e) (ep_interval e)
       (ep_max_burst e) (ep_attrib_3 e) (ep_bytes_per_interval e)"

definition config_group :: "u16 \<Rightarrow> u8 \<Rightarrow> u32 \<Rightarrow> u8 \<Rightarrow> endpoint list \<Rightarrow> stmt" where
  "config_group usb_spec attrib power_ma num_endpoints eps =
     steps (add_config_start usb_spec attrib power_ma num_endpoints
            # map add_endpoint_of eps @ [add_config_end])"

text \<open>The bytes of the records of a group, as the encoders lay them out.\<close>

definition config_header :: "u16 \<Rightarrow> u8 \<Rightarrow> u32 \<Rightarrow> u8 \<Rightarrow> u8 list" where
  "config_header usb_spec attrib power_ma num_endpoints =
     [0x09, 0x02, 0xff, 0xff, 0x01, 0x01, 0x00, attrib,
      ucast (if usb_spec = 0x300 then power_ma div 8 else power_ma div 2),
      0x09, 0x04, 0x00, 0x00, num_endpoints, 0xFF, 0xFF, 0xFF, 0x02]"

definition endpoint_usb2 :: "endpoint \<Rightarrow> u8 list" where
  "endpoint_usb2 e =
     [0x07, 0x05, ep_idx e OR (if ep_dir e \<noteq> 0 then 0x80 else 0x0), ep_attrib e,
      lo_byte (ep_max_pkt e), hi_byte (ep_max_pkt e), ep_interval e]"

definition endpoint_usb3 :: "endpoint \<Rightarrow> u8 list" where
  "endpoint_usb3 e =
     [0x07, 0x05, ep_idx e OR (if ep_dir e \<noteq> 0 then 0x80 else 0x0), ep_attrib e,
      0x00, 0x04, ep_interval e,
      0x06, 0x30, ep_max_burst e - 1, ep_attrib_3 e,
      lo_byte (ep_bytes_per_interval e), hi_byte (ep_bytes_per_interval e)]"

definition alt_interface :: "u8 list" where
  "alt_interface = [0x09, 0x04, 0x00, 0x01, 0x0, 0xFF, 0xFF, 0xFF, 0x02]"

definition patch_length :: "u32 \<Rightarrow> u8 list \<Rightarrow> u8 list" where
  "patch_length n bs = take 2 bs @ first_two_bytes n @ drop 4 bs"

text \<open>The group of \<^verbatim>\<open>main\<close>, run from the initial globals.\<close>

definition main_endpoints :: "endpoint list" where
  "main_endpoints =
     [\<lparr>ep_idx = 1, ep_dir = 1, ep_attrib = 2, ep_max_pkt = 512, ep_interval = 0x1,
       ep_max_burst = 16, ep_attrib_3 = 0x00, ep_bytes_per_interval = 0\<rparr>,
      \<lparr>ep_idx = 2, ep_dir = 0, ep_attrib = 2, ep_max_pkt = 512, ep_interval = 0x1,
       ep_max_burst = 16, ep_attrib_3 = 0x00, ep_bytes_per_interval = 0\<rparr>]"

definition main_group_run :: "error + state" where
  "main_group_run = config_group 0x300 0x80 500 2 main_endpoints init_state"

text \<open>
  The bytes of a string descriptor with a non-zero index: the length byte, the type 3,
  and the first \<open>2 * strlen str\<close> bytes of the text as wide characters.
\<close>

definition string_descr :: "nat \<Rightarrow> u8 list \<Rightarrow> u8 list" where
  "string_descr wchar_size str =
     [ucast (word_of_nat (strlen str * 2 + 2) :: u32), 0x03]
       @ take (2 * strlen str)
           (concat (map (wchar_bytes wchar_size) (takeWhile (\<lambda>c. c \<noteq> 0) str)))"

text \<open>
  The call \<^verbatim>\<open>add_string(1, "AB")\<close> from the initial globals, where \<^verbatim>\<open>wchar_t\<close> has 4 bytes.
\<close>

definition wide_string_run :: "error + state" where
  "wide_string_run = add_string 4 1 (c_string ''AB'') init_state"

text \<open>
  The device descriptor of \<^verbatim>\<open>main\<close> emitted for memories of two bytes and two words
  (both bit widths 1), then padded.
\<close>

definition small_memory_run :: "(error + state) option" where
  "small_memory_run =
     (case add_device_descr 0x300 0xFF 0xFF 0xFF 64 0x1D50 0x605A 0x1 1 2 3 1
             (init_state\<lparr>bitwidth_2 := 1, bitwidth_3 := 1\<rparr>) of
        Inl e \<Rightarrow> Some (Inl e)
      | Inr s \<Rightarrow> pad s)"

text \<open>The lines of \<^verbatim>\<open>usb_descrip.vh\<close> that \<^verbatim>\<open>main\<close> produces, in their order.\<close>

definition main_table :: "param_decl list" where
  "main_table =
     [\<lparr>target = USB2, msb = 7, pname = ''DEVICE'', pvalue = 0\<rparr>,
      \<lparr>target = USB3, msb = 6, pname = ''DEVICE'', pvalue = 0\<rparr>,
      \<lparr>target = USB2, msb = 7, pname = ''DEVICE_QUAL'', pvalue = 0\<rparr>,
      \<lparr>target = USB2, msb = 7, pname = ''CONFIG'', pvalue = 0\<rparr>,
      \<lparr>target = USB3, msb = 6, pname = ''CONFIG'', pvalue = 0\<rparr>,
      \<lparr>target = USB2, msb = 7, pname = ''CONFIG_LEN'', pvalue = 41\<rparr>,
      \<lparr>target = USB3, msb = 6, pname = ''CONFIG_LEN'', pvalue = 53\<rparr>,
      \<lparr>target = USB3, msb = 6, pname = ''BOS    '', pvalue = 0\<rparr>,
      \<lparr>target = USB3, msb = 6, pname = ''BOS_LEN'', pvalue = 22\<rparr>,
      \<lparr>target = USB2, msb = 7, pname = ''STRING0'', pvalue = 0\<rparr>,
      \<lparr>target = USB3, msb = 6, pname = ''STRING0'', pvalue = 0\<rparr>,
      \<lparr>target = USB2, msb = 7, pname = ''STRING1'', pvalue = 0\<rparr>,
      \<lparr>target = USB3, msb = 6, pname = ''STRING1'', pvalue = 0\<rparr>,
      \<lparr>target = USB2, msb = 7, pname = ''STRING2'', pvalue = 0\<rparr>,
      \<lparr>target = USB3, msb = 6, pname = ''STRING2'', pvalue = 0\<rparr>,
      \<lparr>target = USB2, msb = 7, pname = ''STRING3'', pvalue = 0\<rparr>,
      \<lparr>target = USB3, msb = 6, pname = ''STRING3'', pvalue = 0\<rparr>,
      \<lparr>target = USB2, msb = 7, pname = ''CONFUNSET'', pvalue = 0\<rparr>,
      \<lparr>target = USB3, msb = 6, pname = ''CONFUNSET'', pvalue = 0\<rparr>,
      \<lparr>target = USB2, msb = 7, pname = ''CONFSET'', pvalue = 0\<rparr>,
      \<lparr>target = USB3, msb = 6, pname = ''CONFSET'', pvalue = 0\<rparr>,
      \<lparr>target = USB2, msb = 7, pname = ''EOF     '', pvalue = 0\<rparr>,
      \<lparr>target = USB3, msb = 6, pname = ''EOF     '', pvalue = 0\<rparr>]"

text \<open>
  The functions of the generator as calls, and a sequence of calls run from a state. The
  arguments are the ones of the C functions. With them \<open>Add_string\<close> carries the size of
  a wide character, the writers the memory that is readable from their pointer on, and
  \<open>Add_set\<close> the bytes behind its two literals.
\<close>

datatype call =
    Write_buf8 "u8 list" u32
  | Write_buf32 "u8 list" u32
  | Write_buf "u8 list" u32
  | Print_offsets string u8 u8
  | Add_device_qual u16 u8 u8 u8 u8 u8
  | Add_device_descr u16 u8 u8 u8 u8 u16 u16 u16 u8 u8 u8 u8
  | Add_config_start u16 u8 u32 u8
  | Add_endpoint u8 u8 u8 u16 u8 u8 u8 u16
  | Add_config_end
  | Add_bos
  | Add_string nat u8 "u8 list"
  | Add_set "u8 list" "u8 list"

fun call_stmt :: "call \<Rightarrow> stmt" where
  "call_stmt (Write_buf8 mem sz) = write_buf8 mem sz"
| "call_stmt (Write_buf32 mem sz) = write_buf32 mem sz"
| "call_stmt (Write_buf mem sz) = write_buf mem sz"
| "call_stmt (Print_offsets name for_usb2 for_usb3) = ok (print_offsets name for_usb2 for_usb3)"
| "call_stmt (Add_device_qual usb_spec class_code subclass protocol_code max_size_ep0
      num_possible_config) =
     add_device_qual usb_spec class_code subclass protocol_code max_size_ep0 num_possible_config"
| "call_stmt (Add_device_descr usb_spec class_code subclass protocol_code max_size_ep0 vid pid
      dev_num idx_mfg idx_prod idx_serial num_possible_config) =
     add_device_descr usb_spec class_code subclass protocol_code max_size_ep0 vid pid dev_num
       idx_mfg idx_prod idx_serial num_possible_config"
| "call_stmt (Add_config_start usb_spec attrib power_ma num_endpoints) =
     add_config_start usb_spec attrib power_ma num_endpoints"
| "call_stmt (Add_endpoint idx dir attrib max_pkt interval max_burst attrib_3
      bytes_per_interval) =
     add_endpoint idx dir attrib max_pkt interval max_burst attrib_3 bytes_per_interval"
| "call_stmt Add_config_end = add_config_end"
| "call_stmt Add_bos = add_bos"
| "call_stmt (Add_string wchar_size idx str) = add_string wchar_size idx str"
| "call_stmt (Add_set after0 after1) = add_set after0 after1"

definition run :: "call list \<Rightarrow> stmt" where
  "run cs = steps (map call_stmt cs)"

text \<open>
  What a step may do to the output. Both streams and the table grow at their end only,
  each byte counter by the number of bytes appended, and the USB3 stream by whole words
  with the text file following the binary file. \<open>ext_stmt f\<close> says that every run of
  \<open>f\<close> that returns is such a step.
\<close>

definition stream_extends :: "state \<Rightarrow> state \<Rightarrow> bool" where
  "stream_extends s t \<longleftrightarrow>
     (\<exists>b2. bin_2 t = bin_2 s @ b2 \<and> init_2 t = init_2 s @ b2
        \<and> bytes_written_2 t = bytes_written_2 s + word_of_nat (length b2))
   \<and> (\<exists>b3. 4 dvd length b3 \<and> bin_3 t = bin_3 s @ b3 \<and> init_3 t = init_3 s @ text_words b3
        \<and> bytes_written_3 t = bytes_written_3 s + word_of_nat (length b3))
   \<and> (\<exists>ds. descrip_vh t = descrip_vh s @ ds)"

definition ext_stmt :: "stmt \<Rightarrow> bool" where
  "ext_stmt f \<longleftrightarrow> (\<forall>s t. f s = Inr t \<longrightarrow> stream_extends s t)"

text \<open>
  The names of a table in their order, each once for the targets it is declared for. The
  blanks that pad a name in the source (\<^verbatim>\<open>"BOS    "\<close> and \<^verbatim>\<open>"EOF     "\<close>) are white space of the
  parameter listing and not part of the identifier.
\<close>

definition entry_names :: "param_decl list \<Rightarrow> string list" where
  "entry_names tbl = remdups_adj (map (\<lambda>d. takeWhile (\<lambda>c. c \<noteq> CHR '' '') (pname d)) tbl)"

section \<open>The writers in closed form\<close>

declare write_buf8_loop.simps [simp del] write_buf32_loop.simps [simp del]

lemma unat_succ:
  assumes "(i::u32) < sz"
  shows "unat (i + 1) = unat i + 1"
proof -
  have "unat i < unat sz"
    using assms by (simp add: word_less_nat_alt)
  moreover have "unat sz < 2 ^ 32"
    using unsigned_less [of sz, where ?'a = nat] by simp
  ultimately have "unat i + 1 < 2 ^ 32"
    by simp
  then show ?thesis
    by (simp add: unat_word_ariths)
qed

lemma unat_of_nat32: "n < 2 ^ 32 \<Longrightarrow> unat (word_of_nat n :: u32) = n"
  by (simp add: unat_of_nat)

lemma write_buf8_loop_eff:
  "i \<le> sz \<Longrightarrow> unat sz \<le> length mem \<Longrightarrow>
   write_buf8_loop mem sz i s =
     Inr (s\<lparr>init_2 := init_2 s @ drop (unat i) (take (unat sz) mem),
            bin_2 := bin_2 s @ drop (unat i) (take (unat sz) mem),
            bytes_written_2 := bytes_written_2 s + (sz - i)\<rparr>)"
proof (induction mem sz i s rule: write_buf8_loop.induct)
  case (1 mem sz i s)
  show ?case
  proof (cases "i < sz")
    case True
    then have lt: "unat i < unat sz"
      by (simp add: word_less_nat_alt)
    have su: "unat (i + 1) = unat i + 1"
      using True by (rule unat_succ)
    have le: "i + 1 \<le> sz"
      using lt su by (simp add: word_le_nat_alt)
    have dr: "drop (unat i) (take (unat sz) mem)
        = mem ! unat i # drop (unat i + 1) (take (unat sz) mem)"
      using lt "1.prems"(2) by (simp add: Cons_nth_drop_Suc [symmetric])
    show ?thesis
      using True lt "1.prems" "1.IH" [OF True _ le]
      by (subst write_buf8_loop.simps) (simp add: su dr)
  next
    case False
    with "1.prems" have "i = sz"
      by simp
    then show ?thesis
      by (subst write_buf8_loop.simps) simp
  qed
qed

lemma write_buf8_eff:
  "unat sz \<le> length mem \<Longrightarrow>
   write_buf8 mem sz s =
     Inr (s\<lparr>init_2 := init_2 s @ take (unat sz) mem,
            bin_2 := bin_2 s @ take (unat sz) mem,
            bytes_written_2 := bytes_written_2 s + sz\<rparr>)"
  unfolding write_buf8_def by (subst write_buf8_loop_eff) simp_all

lemma take_drop_step:
  assumes "p + 4 \<le> m"
  shows "take 4 (drop p mem) @ drop (p + 4) (take m mem) = drop p (take m mem)"
proof -
  have "take 4 (drop p mem) = take 4 (drop p (take m mem))"
    using assms by (simp add: drop_take)
  moreover have "drop (p + 4) (take m mem) = drop 4 (drop p (take m mem))"
    by (simp add: add.commute)
  ultimately show ?thesis
    by (simp only: append_take_drop_id)
qed

lemma write_buf32_loop_eff:
  assumes fit: "unat sz \<le> 2 ^ 32 - 4" and mem: "4 * nwords sz \<le> length mem"
  shows "k \<le> nwords sz \<Longrightarrow>
    write_buf32_loop mem sz (word_of_nat (4 * k)) (4 * k) s =
      Inr (s\<lparr>init_3 := init_3 s @ map (\<lambda>j. bswap (load32 mem (4 * j))) [k..<nwords sz],
             bin_3 := bin_3 s @ drop (4 * k) (take (4 * nwords sz) mem),
             bytes_written_3 := bytes_written_3 s + word_of_nat (4 * (nwords sz - k))\<rparr>)"
proof (induction "nwords sz - k" arbitrary: k s)
  case 0
  then have k: "k = nwords sz"
    by simp
  have "4 * nwords sz < 2 ^ 32"
    using fit by (simp add: nwords_def)
  then have u: "unat (word_of_nat (4 * nwords sz) :: u32) = 4 * nwords sz"
    by (rule unat_of_nat32)
  have "unat sz \<le> 4 * nwords sz"
    by (simp add: nwords_def)
  then have "\<not> (word_of_nat (4 * nwords sz) :: u32) < sz"
    using u by (simp add: word_less_nat_alt)
  then show ?case
    unfolding k by (subst write_buf32_loop.simps) simp
next
  case (Suc d)
  then have lt: "k < nwords sz"
    by simp
  then have k4: "4 * k + 4 \<le> 4 * nwords sz"
    by simp
  have "4 * nwords sz < 2 ^ 32"
    using fit by (simp add: nwords_def)
  with k4 have "4 * k < 2 ^ 32"
    by simp
  then have u: "unat (word_of_nat (4 * k) :: u32) = 4 * k"
    by (rule unat_of_nat32)
  have "4 * k < unat sz"
    using lt by (simp add: nwords_def)
  then have c1: "(word_of_nat (4 * k) :: u32) < sz"
    using u by (simp add: word_less_nat_alt)
  have c2: "4 * k + 4 \<le> length mem"
    using k4 mem by simp
  have nx: "(word_of_nat (4 * k) :: u32) + 4 = word_of_nat (4 * Suc k)"
    by simp
  have d: "d = nwords sz - Suc k"
    using Suc.hyps(2) by simp
  define r1 where "r1 = map (\<lambda>j. bswap (load32 mem (4 * j))) [Suc k..<nwords sz]"
  define r2 where "r2 = drop (4 * Suc k) (take (4 * nwords sz) mem)"
  define r3 :: u32 where "r3 = word_of_nat (4 * (nwords sz - Suc k))"
  have ih: "write_buf32_loop mem sz (word_of_nat (4 * Suc k)) (4 * Suc k) t =
      Inr (t\<lparr>init_3 := init_3 t @ r1, bin_3 := bin_3 t @ r2,
             bytes_written_3 := bytes_written_3 t + r3\<rparr>)" for t
    unfolding r1_def r2_def r3_def using Suc.hyps(1) [OF d] lt by simp
  have up: "map (\<lambda>j. bswap (load32 mem (4 * j))) [k..<nwords sz]
      = bswap (load32 mem (4 * k)) # r1"
    unfolding r1_def using lt by (simp add: upt_conv_Cons)
  have td: "drop (4 * k) (take (4 * nwords sz) mem) = take 4 (drop (4 * k) mem) @ r2"
    unfolding r2_def
    using take_drop_step [of "4 * k" "4 * nwords sz" mem] k4 by (simp add: add.commute)
  have cnt: "(word_of_nat (4 * (nwords sz - k)) :: u32) = 4 + r3"
  proof -
    have "nwords sz - k = Suc (nwords sz - Suc k)"
      using lt by simp
    then show ?thesis
      unfolding r3_def by simp
  qed
  have px: "4 * k + 4 = 4 * Suc k"
    by simp
  have c2': "4 * Suc k \<le> length mem"
    using c2 by simp
  have step: "write_buf32_loop mem sz (word_of_nat (4 * k)) (4 * k) s =
      write_buf32_loop mem sz (word_of_nat (4 * Suc k)) (4 * Suc k)
        (s\<lparr>init_3 := init_3 s @ [bswap (load32 mem (4 * k))],
           bin_3 := bin_3 s @ take 4 (drop (4 * k) mem),
           bytes_written_3 := bytes_written_3 s + 4\<rparr>)"
    by (subst write_buf32_loop.simps) (simp only: c1 c2 c2' if_True nx px)
  show ?case
    unfolding up td cnt step ih by (simp add: add.assoc)
qed

lemma write_buf32_eff:
  "unat sz \<le> 2 ^ 32 - 4 \<Longrightarrow> 4 * nwords sz \<le> length mem \<Longrightarrow>
   write_buf32 mem sz s =
     Inr (s\<lparr>init_3 := init_3 s @ map (\<lambda>j. bswap (load32 mem (4 * j))) [0..<nwords sz],
            bin_3 := bin_3 s @ take (4 * nwords sz) mem,
            bytes_written_3 := bytes_written_3 s + word_of_nat (4 * nwords sz)\<rparr>)"
  unfolding write_buf32_def
  using write_buf32_loop_eff [of sz mem 0 s] by simp

lemma length_array_mem: "length (array_mem b) = BUF_SIZE"
  by (simp add: array_mem_def)

lemma take_array_mem: "n \<le> BUF_SIZE \<Longrightarrow> take n (array_mem b) = map b [0..<n]"
  by (simp add: array_mem_def take_map)

lemma nth_array_mem: "i < BUF_SIZE \<Longrightarrow> array_mem b ! i = b i"
  by (simp add: array_mem_def)

lemma load32_array_mem: "p + 4 \<le> BUF_SIZE \<Longrightarrow> load32 (array_mem b) p = word_at b p"
  by (simp add: load32_def word_at_def nth_array_mem)

lemma nwords_le: "unat sz \<le> BUF_SIZE \<Longrightarrow> 4 * nwords sz \<le> BUF_SIZE"
  by (simp add: nwords_def BUF_SIZE_def)

lemma write_buf8_array:
  "unat sz \<le> BUF_SIZE \<Longrightarrow>
   write_buf8 (array_mem b) sz s =
     Inr (s\<lparr>init_2 := init_2 s @ map b [0..<unat sz],
            bin_2 := bin_2 s @ map b [0..<unat sz],
            bytes_written_2 := bytes_written_2 s + sz\<rparr>)"
  by (simp add: write_buf8_eff length_array_mem take_array_mem)

lemma write_buf32_array:
  assumes "unat sz \<le> BUF_SIZE"
  shows "write_buf32 (array_mem b) sz s =
     Inr (s\<lparr>init_3 := init_3 s @ map (\<lambda>j. bswap (word_at b (4 * j))) [0..<nwords sz],
            bin_3 := bin_3 s @ map b [0..<4 * nwords sz],
            bytes_written_3 := bytes_written_3 s + word_of_nat (4 * nwords sz)\<rparr>)"
proof -
  have n: "4 * nwords sz \<le> BUF_SIZE"
    using assms by (rule nwords_le)
  have fit: "unat sz \<le> 2 ^ 32 - 4"
    using assms by (simp add: BUF_SIZE_def)
  have m: "map (\<lambda>j. bswap (load32 (array_mem b) (4 * j))) [0..<nwords sz]
      = map (\<lambda>j. bswap (word_at b (4 * j))) [0..<nwords sz]"
    using n by (auto simp: load32_array_mem)
  show ?thesis
    using n by (simp add: write_buf32_eff [OF fit] length_array_mem take_array_mem m)
qed

lemmas stmt_defs = ok_def put_a_def put_z_def poke_z_back_def memcpy_3_from_2_def memcpy_a_def
  advance_z_def retreat_a_def write_buf_def write_buf8_buf_2_def write_buf32_buf_2_def
  write_buf32_buf_3_def write_buf_buf_2_def print_offsets_def z_minus_buf_3_def fail_def

section \<open>Scratch arrays as blocks of bytes\<close>

lemma fun_upd_store: "b(k := v) = store_bytes b k [v]"
  by (auto simp: store_bytes_def fun_eq_iff)

lemma store_overlay:
  assumes "k \<le> j" and "j \<le> k + length vs"
  shows "store_bytes (store_bytes b k vs) j ws
     = store_bytes b k (take (j - k) vs @ ws @ drop (j - k + length ws) vs)"
proof (rule ext)
  fix x
  show "store_bytes (store_bytes b k vs) j ws x
      = store_bytes b k (take (j - k) vs @ ws @ drop (j - k + length ws) vs) x"
  proof (cases "length vs \<le> j - k")
    case True
    with assms have j: "j = k + length vs"
      by arith
    show ?thesis
      unfolding j by (auto simp: store_bytes_def nth_append)
  next
    case False
    then show ?thesis
      using assms by (auto simp: store_bytes_def nth_append min_def)
  qed
qed

lemma map_store:
  "map (store_bytes b k vs) [k..<k + n] = take n vs @ map b [k + length vs..<k + n]"
proof (rule nth_equalityI)
  show "length (map (store_bytes b k vs) [k..<k + n])
      = length (take n vs @ map b [k + length vs..<k + n])"
    by (simp add: min_def)
next
  fix i
  assume "i < length (map (store_bytes b k vs) [k..<k + n])"
  then have i: "i < n"
    by simp
  show "map (store_bytes b k vs) [k..<k + n] ! i
      = (take n vs @ map b [k + length vs..<k + n]) ! i"
    using i by (auto simp: store_bytes_def nth_append min_def)
qed

lemma map_store0:
  "map (store_bytes b 0 vs) [0..<n] = take n vs @ map b [length vs..<n]"
  using map_store [of b 0 vs n] by simp

lemma load32_take: "p + 4 \<le> m \<Longrightarrow> load32 (take m mem) p = load32 mem p"
  by (simp add: load32_def)

lemma text_words_take:
  assumes "4 * n \<le> length mem"
  shows "map (\<lambda>j. bswap (load32 mem (4 * j))) [0..<n] = text_words (take (4 * n) mem)"
proof -
  have "length (take (4 * n) mem) div 4 = n"
    using assms by (simp add: min_def)
  moreover have "map (\<lambda>j. bswap (load32 (take (4 * n) mem) (4 * j))) [0..<n]
      = map (\<lambda>j. bswap (load32 mem (4 * j))) [0..<n]"
    by (auto simp: load32_take)
  ultimately show ?thesis
    by (simp add: text_words_def)
qed

lemma write_buf32_text:
  assumes "unat sz \<le> 2 ^ 32 - 4" and "4 * nwords sz \<le> length mem"
  shows "write_buf32 mem sz s =
     Inr (s\<lparr>init_3 := init_3 s @ text_words (take (4 * nwords sz) mem),
            bin_3 := bin_3 s @ take (4 * nwords sz) mem,
            bytes_written_3 := bytes_written_3 s + word_of_nat (4 * nwords sz)\<rparr>)"
  using assms by (simp add: write_buf32_eff text_words_take)

lemma write_buf32_array_text:
  assumes "unat sz \<le> BUF_SIZE"
  shows "write_buf32 (array_mem b) sz s =
     Inr (s\<lparr>init_3 := init_3 s @ text_words (map b [0..<4 * nwords sz]),
            bin_3 := bin_3 s @ map b [0..<4 * nwords sz],
            bytes_written_3 := bytes_written_3 s + word_of_nat (4 * nwords sz)\<rparr>)"
proof -
  have n: "4 * nwords sz \<le> BUF_SIZE"
    using assms by (rule nwords_le)
  have fit: "unat sz \<le> 2 ^ 32 - 4"
    using assms by (simp add: BUF_SIZE_def)
  show ?thesis
    using n by (simp add: write_buf32_text [OF fit] length_array_mem take_array_mem)
qed

lemmas eval_simps = stmt_defs write_buf8_array write_buf32_array_text BUF_SIZE_def nwords_def
  fun_upd_store store_overlay map_store0 numeral_2_eq_2 [symmetric]

lemma const_bytes:
  "lo_byte 0x300 = 0" "hi_byte 0x300 = 3" "lo_byte 0x210 = 0x10" "hi_byte 0x210 = 2"
  "lo_byte 0x200 = 0" "hi_byte 0x200 = 2" "lo_byte 0xffff = 0xff" "hi_byte 0xffff = 0xff"
  by (simp_all add: lo_byte_def hi_byte_def)

section \<open>The device descriptor\<close>

lemma add_device_descr_eff:
  "add_device_descr usb_spec class_code subclass protocol_code max_size_ep0 vid pid dev_num
       idx_mfg idx_prod idx_serial num_possible_config s =
     Inr (s\<lparr>descrip_vh := descrip_vh s @
            [\<lparr>target = USB2, msb = uint (bitwidth_2 s) - 1, pname = ''DEVICE'',
               pvalue = sint (i_2 s)\<rparr>,
             \<lparr>target = USB3, msb = uint (bitwidth_3 s) - 1, pname = ''DEVICE'',
               pvalue = sint (i_3 s)\<rparr>,
             \<lparr>target = USB2, msb = uint (bitwidth_2 s) - 1, pname = ''DEVICE_QUAL'',
               pvalue = sint (i_2 s)\<rparr>],
          a := Some 10,
          buf_2 := store_bytes (buf_2 s) 0
            [0x0A, 0x06, if usb_spec = 0x300 then 0x10 else 0x00, 0x02, class_code, subclass,
             protocol_code, max_size_ep0, num_possible_config, 0],
          init_2 := init_2 s @
            [0x12, 0x01, if usb_spec = 0x300 then 0x10 else 0x00, 0x02, class_code, subclass,
             protocol_code, max_size_ep0, lo_byte vid, hi_byte vid, lo_byte pid, hi_byte pid,
             lo_byte dev_num, hi_byte dev_num, idx_mfg, idx_prod, idx_serial,
             num_possible_config,
             0x0A, 0x06, if usb_spec = 0x300 then 0x10 else 0x00, 0x02, class_code, subclass,
             protocol_code, max_size_ep0, num_possible_config, 0],
          bin_2 := bin_2 s @
            [0x12, 0x01, if usb_spec = 0x300 then 0x10 else 0x00, 0x02, class_code, subclass,
             protocol_code, max_size_ep0, lo_byte vid, hi_byte vid, lo_byte pid, hi_byte pid,
             lo_byte dev_num, hi_byte dev_num, idx_mfg, idx_prod, idx_serial,
             num_possible_config,
             0x0A, 0x06, if usb_spec = 0x300 then 0x10 else 0x00, 0x02, class_code, subclass,
             protocol_code, max_size_ep0, num_possible_config, 0],
          bytes_written_2 := bytes_written_2 s + 28,
          init_3 := init_3 s @ text_words [0x12, 0x01, 0x00, 0x03]
            @ text_words [class_code, subclass, protocol_code, 0x09]
            @ text_words [lo_byte vid, hi_byte vid, lo_byte pid, hi_byte pid,
                lo_byte dev_num, hi_byte dev_num, idx_mfg, idx_prod, idx_serial,
                num_possible_config, buf_2 s 10, buf_2 s 11],
          bin_3 := bin_3 s @
            [0x12, 0x01, 0x00, 0x03, class_code, subclass, protocol_code, 0x09,
             lo_byte vid, hi_byte vid, lo_byte pid, hi_byte pid,
             lo_byte dev_num, hi_byte dev_num, idx_mfg, idx_prod, idx_serial,
             num_possible_config, buf_2 s 10, buf_2 s 11],
          bytes_written_3 := bytes_written_3 s + 20\<rparr>)"
  by (simp add: add_device_descr_def add_device_qual_def eval_simps const_bytes)

lemma add_device_qual_eff:
  "add_device_qual usb_spec class_code subclass protocol_code max_size_ep0
       num_possible_config s =
     Inr (s\<lparr>descrip_vh := descrip_vh s @
            [\<lparr>target = USB2, msb = uint (bitwidth_2 s) - 1, pname = ''DEVICE_QUAL'',
               pvalue = sint (i_2 s)\<rparr>],
          a := Some 10,
          buf_2 := store_bytes (buf_2 s) 0
            [0x0A, 0x06, if usb_spec = 0x300 then 0x10 else 0x00, 0x02, class_code, subclass,
             protocol_code, max_size_ep0, num_possible_config, 0],
          init_2 := init_2 s @
            [0x0A, 0x06, if usb_spec = 0x300 then 0x10 else 0x00, 0x02, class_code, subclass,
             protocol_code, max_size_ep0, num_possible_config, 0],
          bin_2 := bin_2 s @
            [0x0A, 0x06, if usb_spec = 0x300 then 0x10 else 0x00, 0x02, class_code, subclass,
             protocol_code, max_size_ep0, num_possible_config, 0],
          bytes_written_2 := bytes_written_2 s + 10\<rparr>)"
  by (simp add: add_device_qual_def eval_simps const_bytes)

text \<open>
  C5. The device descriptor as the two streams receive it. The USB2 stream gets 18 bytes
  (followed by the device qualifier), the USB3 stream the same 18 bytes except for
  \<^verbatim>\<open>bcdUSB\<close>, which is 0x0300 there, and \<^verbatim>\<open>bMaxPacketSize0\<close>, which is 9 there and the
  caller's \<open>max_size_ep0\<close> on USB2. Class, subclass, protocol, vendor, product, release,
  the three string indices and the number of configurations are the same bytes in both.
\<close>

theorem device_descr_usb2_usb3_fields:
  "\<exists>s'. add_device_descr usb_spec class_code subclass protocol_code max_size_ep0 vid pid
         dev_num idx_mfg idx_prod idx_serial num_possible_config s = Inr s'
     \<and> take 18 (drop (length (bin_2 s)) (bin_2 s')) =
         [0x12, 0x01, if usb_spec = 0x300 then 0x10 else 0x00, 0x02,
          class_code, subclass, protocol_code, max_size_ep0,
          lo_byte vid, hi_byte vid, lo_byte pid, hi_byte pid, lo_byte dev_num,
          hi_byte dev_num, idx_mfg, idx_prod, idx_serial, num_possible_config]
     \<and> take 18 (drop (length (bin_3 s)) (bin_3 s')) =
         [0x12, 0x01, 0x00, 0x03,
          class_code, subclass, protocol_code, 0x09,
          lo_byte vid, hi_byte vid, lo_byte pid, hi_byte pid, lo_byte dev_num,
          hi_byte dev_num, idx_mfg, idx_prod, idx_serial, num_possible_config]"
  by (simp add: add_device_descr_eff)

text \<open>
  C4, as amended. The \<^verbatim>\<open>bcdUSB\<close> field that the USB2 stream receives, in the device
  descriptor (bytes 2 and 3 of the 28 new bytes) and in the device qualifier (bytes 20
  and 21), follows the requested \<open>usb_spec\<close>: 0x0210 when it is 0x300, and 0x0200 for every
  other value. The same holds for a device qualifier emitted on its own.
\<close>

theorem usb2_bcdUSB_follows_usb_spec:
  "(\<exists>s'. add_device_descr usb_spec class_code subclass protocol_code max_size_ep0 vid pid
         dev_num idx_mfg idx_prod idx_serial num_possible_config s = Inr s'
      \<and> length (bin_2 s') = length (bin_2 s) + 28
      \<and> le16 (bin_2 s' ! (length (bin_2 s) + 2)) (bin_2 s' ! (length (bin_2 s) + 3))
          = (if usb_spec = 0x300 then 0x0210 else 0x0200)
      \<and> le16 (bin_2 s' ! (length (bin_2 s) + 20)) (bin_2 s' ! (length (bin_2 s) + 21))
          = (if usb_spec = 0x300 then 0x0210 else 0x0200))
   \<and> (\<exists>s'. add_device_qual usb_spec class_code subclass protocol_code max_size_ep0
         num_possible_config s = Inr s'
      \<and> length (bin_2 s') = length (bin_2 s) + 10
      \<and> le16 (bin_2 s' ! (length (bin_2 s) + 2)) (bin_2 s' ! (length (bin_2 s) + 3))
          = (if usb_spec = 0x300 then 0x0210 else 0x0200))"
  by (simp add: add_device_descr_eff add_device_qual_eff nth_append le16_def)

theorem usb2_bcdUSB_follows_usb_spec_witness:
  "\<exists>s'. add_device_descr 0x200 0xFF 0xFF 0xFF 64 0x1D50 0x605A 0x1 1 2 3 1 init_state = Inr s'
     \<and> le16 (bin_2 s' ! 2) (bin_2 s' ! 3) = 0x0200
     \<and> le16 (bin_2 s' ! 20) (bin_2 s' ! 21) = 0x0200"
  using usb2_bcdUSB_follows_usb_spec
    [of "0x200" "0xFF" "0xFF" "0xFF" 64 "0x1D50" "0x605A" "0x1" 1 2 3 1 init_state]
  by (auto simp: init_state_def numeral_2_eq_2 [symmetric])

text \<open>
  C4 as stated fails: asked for USB 2.0 (\<open>usb_spec = 0x200\<close>), the encoder puts
  \<^verbatim>\<open>bcdUSB\<close> 0x0200 into the USB2 device descriptor, not 0x0210.
\<close>

theorem usb2_bcdUSB_counterexample:
  "\<not> isl usb2_only_device_run
   \<and> le16 (bin_2 (projr usb2_only_device_run) ! 2) (bin_2 (projr usb2_only_device_run) ! 3)
       \<noteq> 0x0210"
  by (simp add: usb2_only_device_run_def add_device_descr_eff init_state_def le16_def)

text \<open>
  C1, the code at the driver's first call. The offset variables \<^verbatim>\<open>i_2\<close> and \<^verbatim>\<open>i_3\<close> are
  not advanced by the writers: the device qualifier is recorded at offset 0, and its
  first bytes 0x0A 0x06 are at bytes 18 and 19 of the USB2 stream, after the 18 bytes
  of the device descriptor.
\<close>

theorem device_qual_recorded_at_zero:
  "\<exists>s. main_device_run = Inr s
     \<and> descrip_vh s =
         [\<lparr>target = USB2, msb = 7, pname = ''DEVICE'', pvalue = 0\<rparr>,
          \<lparr>target = USB3, msb = 6, pname = ''DEVICE'', pvalue = 0\<rparr>,
          \<lparr>target = USB2, msb = 7, pname = ''DEVICE_QUAL'', pvalue = 0\<rparr>]
     \<and> i_2 s = 0 \<and> i_3 s = 0
     \<and> bytes_written_2 s = 28 \<and> bytes_written_3 s = 20
     \<and> take 2 (drop 18 (bin_2 s)) = [0x0A, 0x06]"
  by (simp add: main_device_run_def add_device_descr_eff init_state_def)

section \<open>The configuration group in closed form\<close>

lemma store_append:
  "store_bytes (store_bytes b k vs) (k + length vs) ws = store_bytes b k (vs @ ws)"
  by (simp add: store_overlay)

lemma store_nil [simp]: "store_bytes b k [] = b"
  by (auto simp: store_bytes_def fun_eq_iff)

lemma add_config_start_eff:
  "add_config_start usb_spec attrib power_ma num_endpoints s =
     Inr (s\<lparr>a := Some 18, z := Some 18, c_2 := i_2 s, c_3 := i_3 s,
          descrip_vh := descrip_vh s @
            [\<lparr>target = USB2, msb = uint (bitwidth_2 s) - 1, pname = ''CONFIG'',
               pvalue = sint (i_2 s)\<rparr>,
             \<lparr>target = USB3, msb = uint (bitwidth_3 s) - 1, pname = ''CONFIG'',
               pvalue = sint (i_3 s)\<rparr>],
          bytes_pending_2 := 18, bytes_pending_3 := 18,
          buf_2 := store_bytes (buf_2 s) 0
            (config_header usb_spec attrib power_ma num_endpoints),
          buf_3 := store_bytes (buf_3 s) 0
            (config_header usb_spec attrib power_ma num_endpoints)\<rparr>)"
  by (simp add: add_config_start_def config_header_def eval_simps const_bytes)

lemma add_endpoint_eff:
  assumes "a s = Some ka" and "z s = Some kz"
    and "ka + 7 \<le> BUF_SIZE" and "kz + 13 \<le> BUF_SIZE"
  shows "add_endpoint idx dir attrib max_pkt interval max_burst attrib_3 bytes_per_interval s =
     Inr (s\<lparr>buf_2 := store_bytes (buf_2 s) ka
            [0x07, 0x05, idx OR (if dir \<noteq> 0 then 0x80 else 0x0), attrib, lo_byte max_pkt,
             hi_byte max_pkt, interval],
          a := Some (ka + 7),
          bytes_pending_2 := bytes_pending_2 s + 7,
          buf_3 := store_bytes (buf_3 s) kz
            [0x07, 0x05, idx OR (if dir \<noteq> 0 then 0x80 else 0x0), attrib, 0x00, 0x04,
             interval,
             0x06, 0x30, max_burst - 1, attrib_3, lo_byte bytes_per_interval,
             hi_byte bytes_per_interval],
          z := Some (kz + 13),
          bytes_pending_3 := bytes_pending_3 s + 13\<rparr>)"
  using assms
  by (simp add: add_endpoint_def eval_simps map_store [of _ _ _ 7, simplified])

lemma add_endpoint_of_eff:
  assumes "a s = Some ka" and "z s = Some kz"
    and "ka + 7 \<le> BUF_SIZE" and "kz + 13 \<le> BUF_SIZE"
  shows "add_endpoint_of e s =
     Inr (s\<lparr>buf_2 := store_bytes (buf_2 s) ka (endpoint_usb2 e),
          a := Some (ka + 7),
          bytes_pending_2 := bytes_pending_2 s + 7,
          buf_3 := store_bytes (buf_3 s) kz (endpoint_usb3 e),
          z := Some (kz + 13),
          bytes_pending_3 := bytes_pending_3 s + 13\<rparr>)"
  unfolding add_endpoint_of_def endpoint_usb2_def endpoint_usb3_def
  by (rule add_endpoint_eff [OF assms])

lemma length_endpoint [simp]:
  "length (endpoint_usb2 e) = 7" "length (endpoint_usb3 e) = 13"
  by (simp_all add: endpoint_usb2_def endpoint_usb3_def)

lemma length_concat_endpoints [simp]:
  "length (concat (map endpoint_usb2 eps)) = 7 * length eps"
  "length (concat (map endpoint_usb3 eps)) = 13 * length eps"
  by (induction eps) simp_all

lemma add_endpoints_eff:
  "a s = Some ka \<Longrightarrow> z s = Some kz \<Longrightarrow> ka + 7 * length eps \<le> BUF_SIZE \<Longrightarrow>
   kz + 13 * length eps \<le> BUF_SIZE \<Longrightarrow>
   steps (map add_endpoint_of eps @ rest) s =
     steps rest
       (s\<lparr>buf_2 := store_bytes (buf_2 s) ka (concat (map endpoint_usb2 eps)),
          a := Some (ka + 7 * length eps),
          bytes_pending_2 := bytes_pending_2 s + word_of_nat (7 * length eps),
          buf_3 := store_bytes (buf_3 s) kz (concat (map endpoint_usb3 eps)),
          z := Some (kz + 13 * length eps),
          bytes_pending_3 := bytes_pending_3 s + word_of_nat (13 * length eps)\<rparr>)"
proof (induction eps arbitrary: s ka kz)
  case Nil
  have "s\<lparr>a := Some ka, z := Some kz\<rparr> = s"
    by (simp add: Nil.prems(1) [symmetric] Nil.prems(2) [symmetric])
  then show ?case
    by simp
next
  case (Cons e eps)
  let ?s1 = "s\<lparr>buf_2 := store_bytes (buf_2 s) ka (endpoint_usb2 e),
          a := Some (ka + 7),
          bytes_pending_2 := bytes_pending_2 s + 7,
          buf_3 := store_bytes (buf_3 s) kz (endpoint_usb3 e),
          z := Some (kz + 13),
          bytes_pending_3 := bytes_pending_3 s + 13\<rparr>"
  have e: "add_endpoint_of e s = Inr ?s1"
    using Cons.prems by (intro add_endpoint_of_eff) simp_all
  have ih: "steps (map add_endpoint_of eps @ rest) ?s1 =
     steps rest
       (?s1\<lparr>buf_2 := store_bytes (buf_2 ?s1) (ka + 7) (concat (map endpoint_usb2 eps)),
          a := Some (ka + 7 + 7 * length eps),
          bytes_pending_2 := bytes_pending_2 ?s1 + word_of_nat (7 * length eps),
          buf_3 := store_bytes (buf_3 ?s1) (kz + 13) (concat (map endpoint_usb3 eps)),
          z := Some (kz + 13 + 13 * length eps),
          bytes_pending_3 := bytes_pending_3 ?s1 + word_of_nat (13 * length eps)\<rparr>)"
    using Cons.prems by (intro Cons.IH) simp_all
  have m2: "store_bytes (store_bytes (buf_2 s) ka (endpoint_usb2 e)) (ka + 7) ws
      = store_bytes (buf_2 s) ka (endpoint_usb2 e @ ws)" for ws
    using store_append [of "buf_2 s" ka "endpoint_usb2 e" ws] by simp
  have m3: "store_bytes (store_bytes (buf_3 s) kz (endpoint_usb3 e)) (kz + 13) ws
      = store_bytes (buf_3 s) kz (endpoint_usb3 e @ ws)" for ws
    using store_append [of "buf_3 s" kz "endpoint_usb3 e" ws] by simp
  show ?case
    by (simp add: e ih m2 m3 add.assoc)
qed

lemma add_config_end_eff:
  assumes "a s = Some ka" and "z s = Some kz"
    and "ka + 9 \<le> BUF_SIZE" and "kz + 9 \<le> BUF_SIZE"
    and "unat (bytes_pending_2 s + 9) \<le> BUF_SIZE"
    and "unat (bytes_pending_3 s + 9) \<le> BUF_SIZE"
  shows "add_config_end s =
     Inr (s\<lparr>a := Some (ka + 9), z := Some (kz + 9),
          bytes_pending_2 := bytes_pending_2 s + 9,
          bytes_pending_3 := bytes_pending_3 s + 9,
          buf_2 := store_bytes (store_bytes (buf_2 s) ka alt_interface) 2
              (first_two_bytes (bytes_pending_2 s + 9)),
          buf_3 := store_bytes (store_bytes (buf_3 s) kz alt_interface) 2
              (first_two_bytes (bytes_pending_3 s + 9)),
          init_2 := init_2 s @ map (store_bytes (store_bytes (buf_2 s) ka alt_interface) 2
              (first_two_bytes (bytes_pending_2 s + 9))) [0..<unat (bytes_pending_2 s + 9)],
          bin_2 := bin_2 s @ map (store_bytes (store_bytes (buf_2 s) ka alt_interface) 2
              (first_two_bytes (bytes_pending_2 s + 9))) [0..<unat (bytes_pending_2 s + 9)],
          bytes_written_2 := bytes_written_2 s + (bytes_pending_2 s + 9),
          init_3 := init_3 s @ text_words (map
              (store_bytes (store_bytes (buf_3 s) kz alt_interface) 2
                (first_two_bytes (bytes_pending_3 s + 9)))
              [0..<4 * nwords (bytes_pending_3 s + 9)]),
          bin_3 := bin_3 s @ map
              (store_bytes (store_bytes (buf_3 s) kz alt_interface) 2
                (first_two_bytes (bytes_pending_3 s + 9)))
              [0..<4 * nwords (bytes_pending_3 s + 9)],
          bytes_written_3 :=
            bytes_written_3 s + word_of_nat (4 * nwords (bytes_pending_3 s + 9))\<rparr>)"
  using assms
  by (simp add: add_config_end_def alt_interface_def stmt_defs write_buf8_array
        write_buf32_array_text fun_upd_store store_overlay [where k = ka]
        store_overlay [where k = kz] map_store [of _ _ _ 9, simplified]
        numeral_2_eq_2 [symmetric])

lemma length_config_header [simp]:
  "length (config_header usb_spec attrib power_ma num_endpoints) = 18"
  by (simp add: config_header_def)

lemma length_alt_interface [simp]: "length alt_interface = 9"
  by (simp add: alt_interface_def)

lemma length_first_two_bytes [simp]: "length (first_two_bytes p) = 2"
  by (simp add: first_two_bytes_def)

lemma length_patch_length [simp]: "4 \<le> length L \<Longrightarrow> length (patch_length p L) = length L"
  by (simp add: patch_length_def)

lemma nth_patch_length:
  "4 \<le> length L \<Longrightarrow> patch_length p L ! 2 = ucast p"
  "4 \<le> length L \<Longrightarrow> patch_length p L ! 3 = ucast (drop_bit 8 p)"
  by (simp_all add: patch_length_def first_two_bytes_def nth_append)

lemma group_buffer:
  assumes "length L = m" and "4 \<le> m"
  shows "map (store_bytes (store_bytes b 0 L) 2 (first_two_bytes p)) [0..<m + r]
      = patch_length p L @ map b [m..<m + r]"
proof -
  have "store_bytes (store_bytes b 0 L) 2 (first_two_bytes p) = store_bytes b 0 (patch_length p L)"
    using assms by (simp add: store_overlay patch_length_def)
  moreover have "length (patch_length p L) = m"
    using assms by simp
  ultimately show ?thesis
    by (simp add: map_store0)
qed

lemma le16_first_two: "le16 (ucast (p::u32)) (ucast (drop_bit 8 p)) = ucast p"
  unfolding le16_def
  by (rule bit_word_eqI) (auto simp: bit_simps)

lemma unat_le16_first_two:
  assumes "n < 65536"
  shows "unat (le16 (ucast (word_of_nat n :: u32)) (ucast (drop_bit 8 (word_of_nat n :: u32)))) = n"
proof -
  have "unat (ucast (word_of_nat n :: u32) :: u16) = n"
    using assms by (simp add: unat_of_nat take_bit_nat_eq_self unsigned_ucast_eq)
  then show ?thesis
    by (simp add: le16_first_two)
qed

lemma config_group_streams:
  assumes fit: "27 + 13 * length eps \<le> BUF_SIZE"
  shows "\<exists>s'. config_group usb_spec attrib power_ma num_endpoints eps s = Inr s'
     \<and> bin_2 s' = bin_2 s @ patch_length (word_of_nat (27 + 7 * length eps))
           (config_header usb_spec attrib power_ma num_endpoints
            @ concat (map endpoint_usb2 eps) @ alt_interface)
     \<and> bin_3 s' = bin_3 s @ patch_length (word_of_nat (27 + 13 * length eps))
           (config_header usb_spec attrib power_ma num_endpoints
            @ concat (map endpoint_usb3 eps) @ alt_interface)
         @ map (buf_3 s) [27 + 13 * length eps..<4 * ((27 + 13 * length eps + 3) div 4)]
     \<and> bytes_pending_2 s' = word_of_nat (27 + 7 * length eps)
     \<and> bytes_pending_3 s' = word_of_nat (27 + 13 * length eps)
     \<and> descrip_vh s' = descrip_vh s @
            [\<lparr>target = USB2, msb = uint (bitwidth_2 s) - 1, pname = ''CONFIG'',
               pvalue = sint (i_2 s)\<rparr>,
             \<lparr>target = USB3, msb = uint (bitwidth_3 s) - 1, pname = ''CONFIG'',
               pvalue = sint (i_3 s)\<rparr>]"
proof -
  let ?n = "length eps"
  let ?H = "config_header usb_spec attrib power_ma num_endpoints"
  let ?E2 = "concat (map endpoint_usb2 eps)"
  let ?E3 = "concat (map endpoint_usb3 eps)"
  define vh where "vh = descrip_vh s @
            [\<lparr>target = USB2, msb = uint (bitwidth_2 s) - 1, pname = ''CONFIG'',
               pvalue = sint (i_2 s)\<rparr>,
             \<lparr>target = USB3, msb = uint (bitwidth_3 s) - 1, pname = ''CONFIG'',
               pvalue = sint (i_3 s)\<rparr>]"
  define s1 where "s1 = s\<lparr>a := Some 18, z := Some 18, c_2 := i_2 s, c_3 := i_3 s,
          descrip_vh := vh, bytes_pending_2 := 18, bytes_pending_3 := 18,
          buf_2 := store_bytes (buf_2 s) 0 ?H, buf_3 := store_bytes (buf_3 s) 0 ?H\<rparr>"
  have st: "add_config_start usb_spec attrib power_ma num_endpoints s = Inr s1"
    by (simp add: s1_def vh_def add_config_start_eff)
  define s2 where "s2 = s1\<lparr>buf_2 := store_bytes (buf_2 s1) 18 ?E2,
          a := Some (18 + 7 * ?n),
          bytes_pending_2 := bytes_pending_2 s1 + word_of_nat (7 * ?n),
          buf_3 := store_bytes (buf_3 s1) 18 ?E3,
          z := Some (18 + 13 * ?n),
          bytes_pending_3 := bytes_pending_3 s1 + word_of_nat (13 * ?n)\<rparr>"
  have eps: "steps (map add_endpoint_of eps @ [add_config_end]) s1 = steps [add_config_end] s2"
    unfolding s2_def using fit by (intro add_endpoints_eff) (simp_all add: s1_def)
  define P2 :: u32 where "P2 = word_of_nat (27 + 7 * ?n)"
  define P3 :: u32 where "P3 = word_of_nat (27 + 13 * ?n)"
  have p2: "bytes_pending_2 s2 + 9 = P2"
    and p3: "bytes_pending_3 s2 + 9 = P3"
    by (simp_all add: s2_def s1_def P2_def P3_def)
  have u2: "unat P2 = 27 + 7 * ?n"
    unfolding P2_def using fit by (intro unat_of_nat32) (simp add: BUF_SIZE_def)
  have u3: "unat P3 = 27 + 13 * ?n"
    unfolding P3_def using fit by (intro unat_of_nat32) (simp add: BUF_SIZE_def)
  have b2: "store_bytes (buf_2 s2) (18 + 7 * ?n) alt_interface
      = store_bytes (buf_2 s) 0 (?H @ ?E2 @ alt_interface)"
    using store_append [of "buf_2 s" 0 ?H ?E2]
      store_append [of "buf_2 s" 0 "?H @ ?E2" alt_interface]
    by (simp add: s2_def s1_def)
  have b3: "store_bytes (buf_3 s2) (18 + 13 * ?n) alt_interface
      = store_bytes (buf_3 s) 0 (?H @ ?E3 @ alt_interface)"
    using store_append [of "buf_3 s" 0 ?H ?E3]
      store_append [of "buf_3 s" 0 "?H @ ?E3" alt_interface]
    by (simp add: s2_def s1_def)
  have n3: "4 * nwords P3 = 4 * ((27 + 13 * ?n + 3) div 4)"
    by (simp add: nwords_def u3)
  have g2: "map (store_bytes (store_bytes (buf_2 s2) (18 + 7 * ?n) alt_interface) 2
        (first_two_bytes P2)) [0..<unat P2]
      = patch_length P2 (?H @ ?E2 @ alt_interface)"
    unfolding b2 u2
    using group_buffer [of "?H @ ?E2 @ alt_interface" "27 + 7 * ?n" "buf_2 s" P2 0]
    by simp
  have "27 + 13 * ?n \<le> 4 * ((27 + 13 * ?n + 3) div 4)"
    by arith
  then obtain r where r: "4 * ((27 + 13 * ?n + 3) div 4) = 27 + 13 * ?n + r"
    using le_Suc_ex by blast
  have g3: "map (store_bytes (store_bytes (buf_3 s2) (18 + 13 * ?n) alt_interface) 2
        (first_two_bytes P3)) [0..<4 * nwords P3]
      = patch_length P3 (?H @ ?E3 @ alt_interface)
        @ map (buf_3 s) [27 + 13 * ?n..<4 * ((27 + 13 * ?n + 3) div 4)]"
    unfolding b3 n3 r
    using group_buffer [of "?H @ ?E3 @ alt_interface" "27 + 13 * ?n" "buf_3 s" P3 r]
    by simp
  have en: "add_config_end s2 =
     Inr (s2\<lparr>a := Some (18 + 7 * ?n + 9), z := Some (18 + 13 * ?n + 9),
          bytes_pending_2 := bytes_pending_2 s2 + 9,
          bytes_pending_3 := bytes_pending_3 s2 + 9,
          buf_2 := store_bytes (store_bytes (buf_2 s2) (18 + 7 * ?n) alt_interface) 2
              (first_two_bytes (bytes_pending_2 s2 + 9)),
          buf_3 := store_bytes (store_bytes (buf_3 s2) (18 + 13 * ?n) alt_interface) 2
              (first_two_bytes (bytes_pending_3 s2 + 9)),
          init_2 := init_2 s2 @ map (store_bytes (store_bytes (buf_2 s2) (18 + 7 * ?n) alt_interface) 2
              (first_two_bytes (bytes_pending_2 s2 + 9))) [0..<unat (bytes_pending_2 s2 + 9)],
          bin_2 := bin_2 s2 @ map (store_bytes (store_bytes (buf_2 s2) (18 + 7 * ?n) alt_interface) 2
              (first_two_bytes (bytes_pending_2 s2 + 9))) [0..<unat (bytes_pending_2 s2 + 9)],
          bytes_written_2 := bytes_written_2 s2 + (bytes_pending_2 s2 + 9),
          init_3 := init_3 s2 @ text_words (map
              (store_bytes (store_bytes (buf_3 s2) (18 + 13 * ?n) alt_interface) 2
                (first_two_bytes (bytes_pending_3 s2 + 9)))
              [0..<4 * nwords (bytes_pending_3 s2 + 9)]),
          bin_3 := bin_3 s2 @ map
              (store_bytes (store_bytes (buf_3 s2) (18 + 13 * ?n) alt_interface) 2
                (first_two_bytes (bytes_pending_3 s2 + 9)))
              [0..<4 * nwords (bytes_pending_3 s2 + 9)],
          bytes_written_3 :=
            bytes_written_3 s2 + word_of_nat (4 * nwords (bytes_pending_3 s2 + 9))\<rparr>)"
    using fit u2 u3 by (intro add_config_end_eff) (simp_all add: p2 p3, simp_all add: s2_def BUF_SIZE_def)
  have run: "config_group usb_spec attrib power_ma num_endpoints eps s = add_config_end s2"
    by (simp add: config_group_def st eps split: sum.splits)
  have same: "bin_2 s2 = bin_2 s" "bin_3 s2 = bin_3 s" "descrip_vh s2 = vh"
    by (simp_all add: s2_def s1_def)
  have "\<exists>s'. config_group usb_spec attrib power_ma num_endpoints eps s = Inr s'
     \<and> bin_2 s' = bin_2 s @ patch_length P2 (?H @ ?E2 @ alt_interface)
     \<and> bin_3 s' = bin_3 s @ patch_length P3 (?H @ ?E3 @ alt_interface)
         @ map (buf_3 s) [27 + 13 * ?n..<4 * ((27 + 13 * ?n + 3) div 4)]
     \<and> bytes_pending_2 s' = P2 \<and> bytes_pending_3 s' = P3 \<and> descrip_vh s' = vh"
    unfolding run en by (simp add: p2 p3 g2 g3 same)
  then show ?thesis
    unfolding P2_def P3_def vh_def .
qed

text \<open>
  C2, as amended. For a group with any list of endpoints that fits the scratch arrays
  (\<open>27 + 13 n \<le> 1024\<close> for \<open>n\<close> endpoints), the two-byte total-length field at offset 2
  of the group's bytes in each stream equals that stream's pending byte count, the size
  of the group's records: \<open>27 + 7 n\<close> on USB2 and \<open>27 + 13 n\<close> on USB3, six more per
  endpoint for the companion. The USB2 stream receives exactly that many bytes. The USB3
  stream receives that count rounded up to a whole number of words.
\<close>

theorem config_group_total_length:
  assumes "27 + 13 * length eps \<le> BUF_SIZE"
  shows "\<exists>s'. config_group usb_spec attrib power_ma num_endpoints eps s = Inr s'
      \<and> length (bin_2 s') = length (bin_2 s) + (27 + 7 * length eps)
      \<and> unat (le16 (bin_2 s' ! (length (bin_2 s) + 2)) (bin_2 s' ! (length (bin_2 s) + 3)))
          = 27 + 7 * length eps
      \<and> unat (bytes_pending_2 s') = 27 + 7 * length eps
      \<and> length (bin_3 s') = length (bin_3 s) + 4 * ((27 + 13 * length eps + 3) div 4)
      \<and> unat (le16 (bin_3 s' ! (length (bin_3 s) + 2)) (bin_3 s' ! (length (bin_3 s) + 3)))
          = 27 + 13 * length eps
      \<and> unat (bytes_pending_3 s') = 27 + 13 * length eps"
proof -
  let ?n = "length eps"
  define P2 :: u32 where "P2 = word_of_nat (27 + 7 * ?n)"
  define P3 :: u32 where "P3 = word_of_nat (27 + 13 * ?n)"
  from config_group_streams [OF assms, of usb_spec attrib power_ma num_endpoints s,
      folded P2_def P3_def]
  obtain s' where run: "config_group usb_spec attrib power_ma num_endpoints eps s = Inr s'"
    and b2: "bin_2 s' = bin_2 s @ patch_length P2
           (config_header usb_spec attrib power_ma num_endpoints
            @ concat (map endpoint_usb2 eps) @ alt_interface)"
    and b3: "bin_3 s' = bin_3 s @ patch_length P3
           (config_header usb_spec attrib power_ma num_endpoints
            @ concat (map endpoint_usb3 eps) @ alt_interface)
         @ map (buf_3 s) [27 + 13 * ?n..<4 * ((27 + 13 * ?n + 3) div 4)]"
    and p2: "bytes_pending_2 s' = P2"
    and p3: "bytes_pending_3 s' = P3"
    by blast
  have f2: "unat (le16 (ucast P2) (ucast (drop_bit 8 P2))) = 27 + 7 * ?n"
    and f3: "unat (le16 (ucast P3) (ucast (drop_bit 8 P3))) = 27 + 13 * ?n"
    unfolding P2_def P3_def using assms
    by (intro unat_le16_first_two; simp add: BUF_SIZE_def)+
  have u2: "unat P2 = 27 + 7 * ?n" and u3: "unat P3 = 27 + 13 * ?n"
    unfolding P2_def P3_def using assms
    by (intro unat_of_nat32; simp add: BUF_SIZE_def)+
  have "27 + 13 * ?n \<le> 4 * ((27 + 13 * ?n + 3) div 4)"
    by arith
  then have l3: "length (bin_3 s') = length (bin_3 s) + 4 * ((27 + 13 * ?n + 3) div 4)"
    unfolding b3 by simp
  show ?thesis
    using run l3
    by (simp add: b2 b3 p2 p3 nth_append nth_patch_length f2 f3 u2 u3)
qed

theorem config_group_total_length_witness:
  "27 + 13 * length main_endpoints \<le> BUF_SIZE
   \<and> (\<exists>s'. config_group 0x300 0x80 500 2 main_endpoints init_state = Inr s'
      \<and> length (bin_2 s') = 41
      \<and> unat (le16 (bin_2 s' ! 2) (bin_2 s' ! 3)) = 41
      \<and> length (bin_3 s') = 56
      \<and> unat (le16 (bin_3 s' ! 2) (bin_3 s' ! 3)) = 53)"
proof -
  have h: "27 + 13 * length main_endpoints \<le> BUF_SIZE"
    by (simp add: main_endpoints_def BUF_SIZE_def)
  show ?thesis
    using h config_group_total_length [OF h, of "0x300" "0x80" 500 2 init_state]
    by (auto simp: main_endpoints_def init_state_def numeral_2_eq_2 [symmetric])
qed

text \<open>
  C2 as stated fails on the USB3 stream: for the group of \<^verbatim>\<open>main\<close> (two endpoints) the
  total-length field is 53, and 56 bytes are appended to the stream.
\<close>

theorem usb3_total_length_counterexample:
  "\<not> isl main_group_run
   \<and> unat (le16 (bin_3 (projr main_group_run) ! 2) (bin_3 (projr main_group_run) ! 3)) = 53
   \<and> length (bin_3 (projr main_group_run)) = 56"
proof -
  have h: "27 + 13 * length main_endpoints \<le> BUF_SIZE"
    by (simp add: main_endpoints_def BUF_SIZE_def)
  from config_group_streams [OF h, of "0x300" "0x80" 500 2 init_state]
  obtain s' where run: "main_group_run = Inr s'"
    and b3: "bin_3 s' = bin_3 init_state @ patch_length (word_of_nat (27 + 13 * length main_endpoints))
           (config_header 0x300 0x80 500 2
            @ concat (map endpoint_usb3 main_endpoints) @ alt_interface)
         @ map (buf_3 init_state) [27 + 13 * length main_endpoints..<4 * ((27 + 13 * length main_endpoints + 3) div 4)]"
    unfolding main_group_run_def by blast
  have l: "length main_endpoints = 2"
    by (simp add: main_endpoints_def)
  have f: "unat (le16 (ucast (word_of_nat 53 :: u32)) (ucast (drop_bit 8 (word_of_nat 53 :: u32)))) = 53"
    by (rule unat_le16_first_two) simp
  show ?thesis
    unfolding run using f
    by (simp add: b3 l init_state_def nth_append nth_patch_length)
qed

lemma nth_concat_endpoints:
  "k < length eps \<Longrightarrow> j < 13 \<Longrightarrow>
   concat (map endpoint_usb3 eps) ! (13 * k + j) = endpoint_usb3 (eps ! k) ! j"
proof (induction eps arbitrary: k)
  case Nil
  then show ?case by simp
next
  case (Cons e eps)
  show ?case
  proof (cases k)
    case 0
    then show ?thesis
      using Cons.prems by (simp add: nth_append)
  next
    case (Suc k')
    then have "concat (map endpoint_usb3 (e # eps)) ! (13 * k + j)
        = concat (map endpoint_usb3 eps) ! (13 * k' + j)"
      by (simp add: nth_append)
    then show ?thesis
      using Cons.IH [of k'] Cons.prems Suc by simp
  qed
qed

text \<open>
  C10. \<^verbatim>\<open>add_endpoint\<close> writes the companion descriptor behind the copied endpoint in
  \<^verbatim>\<open>buf_3\<close>; its third byte, \<^verbatim>\<open>bMaxBurst\<close>, is \<open>max_burst - 1\<close> in 8-bit arithmetic, that
  is \<open>(max_burst - 1) mod 256\<close>: one less than a non-zero count, and 255 for 0. The byte
  reaches the USB3 stream unchanged when the group is closed: for the \<open>k\<close>-th endpoint it
  is byte \<open>18 + 13 k + 9\<close> of the group.
\<close>

theorem companion_max_burst_is_one_less:
  "(a s = Some ka \<and> z s = Some kz \<and> ka + 7 \<le> BUF_SIZE \<and> kz + 13 \<le> BUF_SIZE \<longrightarrow>
     (\<exists>s'. add_endpoint idx dir attrib max_pkt interval max_burst attrib_3
          bytes_per_interval s = Inr s'
        \<and> map (buf_3 s') [kz + 7..<kz + 13]
            = [0x06, 0x30, max_burst - 1, attrib_3, lo_byte bytes_per_interval,
               hi_byte bytes_per_interval]
        \<and> uint (buf_3 s' (kz + 9)) = (uint max_burst - 1) mod 256
        \<and> (if max_burst = 0 then buf_3 s' (kz + 9) = 255
            else unat (buf_3 s' (kz + 9)) + 1 = unat max_burst)))
   \<and> (27 + 13 * length eps \<le> BUF_SIZE \<and> k < length eps \<longrightarrow>
     (\<exists>s'. config_group usb_spec c_attrib power_ma num_endpoints eps s = Inr s'
        \<and> bin_3 s' ! (length (bin_3 s) + 18 + 13 * k + 9) = ep_max_burst (eps ! k) - 1))"
proof (intro conjI impI)
  assume h: "a s = Some ka \<and> z s = Some kz \<and> ka + 7 \<le> BUF_SIZE \<and> kz + 13 \<le> BUF_SIZE"
  have m: "map (store_bytes b kz vs) [kz + 7..<kz + 13] = drop 7 vs" if "length vs = 13" for b vs
  proof -
    have "map (store_bytes b kz vs) [kz..<kz + 13] = vs"
      using that map_store [of b kz vs 13] by simp
    moreover have "[kz + 7..<kz + 13] = drop 7 [kz..<kz + 13]"
      by (simp add: drop_upt)
    ultimately show ?thesis
      by (metis drop_map)
  qed
  have u: "uint (max_burst - 1) = (uint max_burst - 1) mod 256"
    by (simp add: uint_word_ariths)
  have w: "unat (max_burst - 1) + 1 = unat max_burst" if "max_burst \<noteq> 0"
  proof -
    from that have "unat max_burst \<noteq> 0"
      by (simp add: unat_eq_0)
    with that show ?thesis
      by (simp add: unat_minus_one)
  qed
  define B where "B = store_bytes (buf_3 s) kz
            [0x07, 0x05, idx OR (if dir \<noteq> 0 then 0x80 else 0x0), attrib, 0x00, 0x04,
             interval,
             0x06, 0x30, max_burst - 1, attrib_3, lo_byte bytes_per_interval,
             hi_byte bytes_per_interval]"
  have b1: "map B [kz + 7..<kz + 13]
      = [0x06, 0x30, max_burst - 1, attrib_3, lo_byte bytes_per_interval,
         hi_byte bytes_per_interval]"
    unfolding B_def by (subst m) simp_all
  have b2: "B (kz + 9) = max_burst - 1"
    by (simp add: B_def store_bytes_def)
  have "\<exists>s'. add_endpoint idx dir attrib max_pkt interval max_burst attrib_3
          bytes_per_interval s = Inr s' \<and> buf_3 s' = B"
    using h by (simp add: add_endpoint_eff [of s ka kz] B_def)
  then obtain s' where run: "add_endpoint idx dir attrib max_pkt interval max_burst attrib_3
          bytes_per_interval s = Inr s'" and b: "buf_3 s' = B"
    by blast
  have f: "map (buf_3 s') [kz + 7..<kz + 13]
            = [0x06, 0x30, max_burst - 1, attrib_3, lo_byte bytes_per_interval,
               hi_byte bytes_per_interval]
        \<and> uint (buf_3 s' (kz + 9)) = (uint max_burst - 1) mod 256
        \<and> (if max_burst = 0 then buf_3 s' (kz + 9) = 255
            else unat (buf_3 s' (kz + 9)) + 1 = unat max_burst)"
    unfolding b b1 b2 using u w by simp
  show "\<exists>s'. add_endpoint idx dir attrib max_pkt interval max_burst attrib_3
          bytes_per_interval s = Inr s'
        \<and> map (buf_3 s') [kz + 7..<kz + 13]
            = [0x06, 0x30, max_burst - 1, attrib_3, lo_byte bytes_per_interval,
               hi_byte bytes_per_interval]
        \<and> uint (buf_3 s' (kz + 9)) = (uint max_burst - 1) mod 256
        \<and> (if max_burst = 0 then buf_3 s' (kz + 9) = 255
            else unat (buf_3 s' (kz + 9)) + 1 = unat max_burst)"
    by (rule exI [of _ s']) (use run f in blast)
next
  assume h: "27 + 13 * length eps \<le> BUF_SIZE \<and> k < length eps"
  then have fit: "27 + 13 * length eps \<le> BUF_SIZE" and k: "k < length eps"
    by simp_all
  let ?L = "config_header usb_spec c_attrib power_ma num_endpoints
            @ concat (map endpoint_usb3 eps) @ alt_interface"
  from config_group_streams [OF fit, of usb_spec c_attrib power_ma num_endpoints s]
  obtain s' where run: "config_group usb_spec c_attrib power_ma num_endpoints eps s = Inr s'"
    and b3: "bin_3 s' = bin_3 s @ patch_length (word_of_nat (27 + 13 * length eps)) ?L
         @ map (buf_3 s) [27 + 13 * length eps..<4 * ((27 + 13 * length eps + 3) div 4)]"
    by blast
  have i: "18 + 13 * k + 9 < 27 + 13 * length eps"
    using k by simp
  have "patch_length p ?L ! (18 + 13 * k + 9) = ?L ! (18 + 13 * k + 9)" for p
    using i by (simp add: patch_length_def nth_append min_def)
  also have "?L ! (18 + 13 * k + 9) = concat (map endpoint_usb3 eps) ! (13 * k + 9)"
    using k by (simp add: nth_append add.commute)
  also have "\<dots> = endpoint_usb3 (eps ! k) ! 9"
    using k by (intro nth_concat_endpoints) simp_all
  also have "\<dots> = ep_max_burst (eps ! k) - 1"
    by (simp add: endpoint_usb3_def)
  finally have "bin_3 s' ! (length (bin_3 s) + 18 + 13 * k + 9) = ep_max_burst (eps ! k) - 1"
    using i by (simp add: b3 nth_append add.assoc)
  then show "\<exists>s'. config_group usb_spec c_attrib power_ma num_endpoints eps s = Inr s'
        \<and> bin_3 s' ! (length (bin_3 s) + 18 + 13 * k + 9) = ep_max_burst (eps ! k) - 1"
    using run by (intro exI [of _ s']) simp
qed

theorem companion_max_burst_is_one_less_witness:
  "(\<exists>s'. add_endpoint 1 1 2 512 0x1 0 0x00 0 (init_state\<lparr>a := Some 18, z := Some 18\<rparr>) = Inr s'
      \<and> buf_3 s' 27 = 255)
   \<and> (\<exists>s'. config_group 0x300 0x80 500 2 main_endpoints
          (init_state\<lparr>a := Some 18, z := Some 18\<rparr>) = Inr s'
      \<and> bin_3 s' ! 27 = 15)"
  using companion_max_burst_is_one_less
    [where s = "init_state\<lparr>a := Some 18, z := Some 18\<rparr>" and ka = 18 and kz = 18
      and idx = 1 and dir = 1 and attrib = 2 and max_pkt = 512 and interval = 1
      and max_burst = 0 and ?attrib_3.0 = 0 and bytes_per_interval = 0
      and eps = main_endpoints and k = 0 and usb_spec = "0x300" and c_attrib = "0x80"
      and power_ma = 500 and num_endpoints = 2]
  by (auto simp: init_state_def main_endpoints_def BUF_SIZE_def)

section \<open>String descriptors\<close>

lemma length_concat_wchar:
  "1 \<le> w \<Longrightarrow> length (concat (map (wchar_bytes w) cs)) = w * length cs"
  by (induction cs) (simp_all add: wchar_bytes_def)

lemma twice_le_wide: "2 \<le> w \<Longrightarrow> 2 * n \<le> w * (n::nat)"
  by (rule mult_le_mono1)

lemma length_string_descr:
  assumes "2 \<le> w"
  shows "length (string_descr w str) = 2 + 2 * strlen str"
proof -
  have "length (concat (map (wchar_bytes w) (takeWhile (\<lambda>c. c \<noteq> 0) str))) = w * strlen str"
    using assms by (simp add: length_concat_wchar strlen_def)
  moreover have "2 * strlen str \<le> w * strlen str"
    using assms by (rule twice_le_wide)
  ultimately show ?thesis
    by (simp add: string_descr_def)
qed

lemma mbstowcs_ascii:
  assumes "strlen str \<le> 128"
    and "list_all (\<lambda>c. c < 0x80) (takeWhile (\<lambda>c. c \<noteq> 0) str)"
  shows "mbstowcs w str 128 =
     concat (map (wchar_bytes w) (takeWhile (\<lambda>c. c \<noteq> 0) str))
       @ (if strlen str < 128 then replicate w 0 else [])"
proof -
  have "take 128 (takeWhile (\<lambda>c. c \<noteq> 0) str) = takeWhile (\<lambda>c. c \<noteq> 0) str"
    using assms(1) by (simp add: strlen_def)
  then show ?thesis
    unfolding mbstowcs_def using assms(2) by simp
qed

lemma take_mbstowcs:
  assumes "strlen str \<le> 128" and "2 \<le> w"
    and "list_all (\<lambda>c. c < 0x80) (takeWhile (\<lambda>c. c \<noteq> 0) str)"
  shows "take (2 * strlen str) (mbstowcs w str 128)
     = take (2 * strlen str) (concat (map (wchar_bytes w) (takeWhile (\<lambda>c. c \<noteq> 0) str)))"
proof -
  have "length (concat (map (wchar_bytes w) (takeWhile (\<lambda>c. c \<noteq> 0) str))) = w * strlen str"
    using assms(2) by (simp add: length_concat_wchar strlen_def)
  moreover have "2 * strlen str \<le> w * strlen str"
    using assms(2) by (rule twice_le_wide)
  ultimately show ?thesis
    unfolding mbstowcs_ascii [OF assms(1,3)] by simp
qed

lemma length_mbstowcs:
  assumes "strlen str \<le> 128" and "2 \<le> w"
    and "list_all (\<lambda>c. c < 0x80) (takeWhile (\<lambda>c. c \<noteq> 0) str)"
  shows "2 * strlen str \<le> length (mbstowcs w str 128)"
proof -
  define m where "m = w * strlen str"
  have "length (concat (map (wchar_bytes w) (takeWhile (\<lambda>c. c \<noteq> 0) str))) = m"
    unfolding m_def using assms(2) by (simp add: length_concat_wchar strlen_def)
  moreover have "2 * strlen str \<le> m"
    unfolding m_def using assms(2) by (rule twice_le_wide)
  ultimately show ?thesis
    unfolding mbstowcs_ascii [OF assms(1,3)] by simp
qed

lemma map_zero_upt: "map (\<lambda>_. (0::u8)) [i..<j] = replicate (j - i) 0"
  by (simp add: map_replicate_const)

lemma add_string_eff:
  assumes idx: "idx \<noteq> 0" and n: "strlen str \<le> 128" and w: "2 \<le> w"
    and ascii: "list_all (\<lambda>c. c < 0x80) (takeWhile (\<lambda>c. c \<noteq> 0) str)"
  shows "add_string w idx str s =
     Inr (s\<lparr>buf_2 := store_bytes (\<lambda>_. 0) 0 (string_descr w str),
          a := Some 2,
          descrip_vh := descrip_vh s @
            [\<lparr>target = USB2, msb = uint (bitwidth_2 s) - 1,
               pname = ''STRING'' @ decimal (unat idx), pvalue = sint (i_2 s)\<rparr>,
             \<lparr>target = USB3, msb = uint (bitwidth_3 s) - 1,
               pname = ''STRING'' @ decimal (unat idx), pvalue = sint (i_3 s)\<rparr>],
          init_2 := init_2 s @ string_descr w str,
          bin_2 := bin_2 s @ string_descr w str,
          bytes_written_2 := bytes_written_2 s + word_of_nat (2 + 2 * strlen str),
          init_3 := init_3 s @ text_words (string_descr w str
              @ replicate (4 * ((2 + 2 * strlen str + 3) div 4) - (2 + 2 * strlen str)) 0),
          bin_3 := bin_3 s @ string_descr w str
              @ replicate (4 * ((2 + 2 * strlen str + 3) div 4) - (2 + 2 * strlen str)) 0,
          bytes_written_3 := bytes_written_3 s
              + word_of_nat (4 * ((2 + 2 * strlen str + 3) div 4))\<rparr>)"
proof -
  define len :: u32 where "len = word_of_nat (strlen str * 2 + 2)"
  define w_str where "w_str = mbstowcs w str 128"
  have pos: "0 < idx"
    using idx by (simp add: word_greater_zero_iff)
  have unf: "add_string w idx str =
      steps [
        ok (\<lambda>s. s\<lparr>buf_2 := (\<lambda>_. 0)\<rparr>),
        ok (\<lambda>s. s\<lparr>a := Some 0\<rparr>),
        ok (print_offsets (''STRING'' @ decimal (unat idx)) 1 1),
        (\<lambda>s. Inr s),
        put_a (ucast len),
        put_a 0x03,
        memcpy_a w_str (unat (len - 2)),
        write_buf_buf_2 len]"
    unfolding add_string_def Let_def len_def w_str_def using idx pos by simp
  have ul: "unat len = 2 + 2 * strlen str"
    unfolding len_def using n by (subst unat_of_nat32) simp_all
  have "len - 2 = word_of_nat (2 * strlen str)"
    by (simp add: len_def)
  then have "unat (len - 2) = unat (word_of_nat (2 * strlen str) :: u32)"
    by (simp only:)
  also have "\<dots> = 2 * strlen str"
    using n by (intro unat_of_nat32) simp
  finally have ul2: "unat (len - 2) = 2 * strlen str" .
  have tk: "take (2 * strlen str) w_str
      = take (2 * strlen str) (concat (map (wchar_bytes w) (takeWhile (\<lambda>c. c \<noteq> 0) str)))"
    unfolding w_str_def using n w ascii by (rule take_mbstowcs)
  have lw: "2 * strlen str \<le> length w_str"
    unfolding w_str_def using n w ascii by (rule length_mbstowcs)
  have sd: "[ucast len, 0x03]
      @ take (2 * strlen str) (concat (map (wchar_bytes w) (takeWhile (\<lambda>c. c \<noteq> 0) str)))
      = string_descr w str"
    by (simp add: string_descr_def len_def)
  note lsd = length_string_descr [OF w, of str]
  have nw: "4 * nwords len = 4 * ((2 + 2 * strlen str + 3) div 4)"
    by (simp add: nwords_def ul)
  have lenw: "len = word_of_nat (2 + 2 * strlen str)"
    by (simp add: len_def add.commute mult.commute)
  have ge: "2 + 2 * strlen str \<le> 4 * ((2 + 2 * strlen str + 3) div 4)"
    by arith
  define vh where "vh = descrip_vh s @
            [\<lparr>target = USB2, msb = uint (bitwidth_2 s) - 1,
               pname = ''STRING'' @ decimal (unat idx), pvalue = sint (i_2 s)\<rparr>,
             \<lparr>target = USB3, msb = uint (bitwidth_3 s) - 1,
               pname = ''STRING'' @ decimal (unat idx), pvalue = sint (i_3 s)\<rparr>]"
  define s1 where "s1 = s\<lparr>descrip_vh := vh,
      buf_2 := store_bytes (\<lambda>_. 0) 0 [ucast len, 0x03], a := Some 2\<rparr>"
  define s2 where "s2 = s1\<lparr>buf_2 := store_bytes (\<lambda>_. 0) 0 (string_descr w str)\<rparr>"
  have st1: "add_string w idx str s
      = steps [memcpy_a w_str (unat (len - 2)), write_buf_buf_2 len] s1"
    unfolding unf s1_def vh_def
    by (simp add: ok_def put_a_def print_offsets_def BUF_SIZE_def fun_upd_store store_overlay
        numeral_2_eq_2 [symmetric])
  have b: "store_bytes (store_bytes (\<lambda>_. 0) 0 [ucast len, 0x03]) 2
        (take (2 * strlen str) w_str) = store_bytes (\<lambda>_. 0) 0 (string_descr w str)"
    unfolding tk sd [symmetric] by (simp add: store_overlay)
  have st2: "memcpy_a w_str (unat (len - 2)) s1 = Inr s2"
    unfolding memcpy_a_def ul2 s2_def
    using n lw by (simp add: s1_def BUF_SIZE_def b)
  have b2: "buf_2 s2 = store_bytes (\<lambda>_. 0) 0 (string_descr w str)"
    by (simp add: s2_def)
  have m8: "map (buf_2 s2) [0..<unat len] = string_descr w str"
    unfolding ul b2 map_store0 by (simp add: lsd)
  obtain r where r: "4 * ((2 + 2 * strlen str + 3) div 4) = 2 + 2 * strlen str + r"
    using ge le_Suc_ex by blast
  have m32: "map (buf_2 s2) [0..<4 * nwords len]
      = string_descr w str
        @ replicate (4 * ((2 + 2 * strlen str + 3) div 4) - (2 + 2 * strlen str)) 0"
  proof -
    have e1: "map (\<lambda>_::nat. 0::u8) [length (string_descr w str)..<2 + 2 * strlen str + r]
        = replicate r 0"
      by (simp only: map_zero_upt lsd diff_add_inverse)
    have e2: "take (2 + 2 * strlen str + r) (string_descr w str) = string_descr w str"
      by (simp add: lsd)
    have e3: "2 + 2 * strlen str + r - (2 + 2 * strlen str) = r"
      by simp
    show ?thesis
      unfolding nw r b2 map_store0 e1 e2 e3 by (rule refl)
  qed
  have le: "unat len \<le> BUF_SIZE"
    unfolding ul using n by (simp add: BUF_SIZE_def)
  have st3: "write_buf_buf_2 len s2 =
      Inr (s2\<lparr>init_2 := init_2 s2 @ string_descr w str,
             bin_2 := bin_2 s2 @ string_descr w str,
             bytes_written_2 := bytes_written_2 s2 + len,
             init_3 := init_3 s2 @ text_words (string_descr w str
               @ replicate (4 * ((2 + 2 * strlen str + 3) div 4) - (2 + 2 * strlen str)) 0),
             bin_3 := bin_3 s2 @ string_descr w str
               @ replicate (4 * ((2 + 2 * strlen str + 3) div 4) - (2 + 2 * strlen str)) 0,
             bytes_written_3 := bytes_written_3 s2 + word_of_nat (4 * nwords len)\<rparr>)"
    unfolding write_buf_buf_2_def write_buf_def
    by (simp add: write_buf8_array [OF le] write_buf32_array_text [OF le] m8 m32)
  have fin: "add_string w idx str s = write_buf_buf_2 len s2"
    unfolding st1 by (simp add: st2 split: sum.splits)
  show ?thesis
    unfolding fin st3 nw
    by (simp add: s2_def s1_def vh_def lenw)
qed

lemma add_string0_eff:
  assumes "1 \<le> length str"
  shows "add_string w 0 str s =
     Inr (s\<lparr>descrip_vh := descrip_vh s @
            [\<lparr>target = USB2, msb = uint (bitwidth_2 s) - 1,
               pname = ''STRING0'', pvalue = sint (i_2 s)\<rparr>,
             \<lparr>target = USB3, msb = uint (bitwidth_3 s) - 1,
               pname = ''STRING0'', pvalue = sint (i_3 s)\<rparr>],
          buf_2 := store_bytes (\<lambda>_. 0) 0 ([0x04, 0x03] @ take 2 (str @ [0])),
          a := Some 2,
          init_2 := init_2 s @ [0x04, 0x03] @ take 2 (str @ [0]),
          bin_2 := bin_2 s @ [0x04, 0x03] @ take 2 (str @ [0]),
          bytes_written_2 := bytes_written_2 s + 4,
          init_3 := init_3 s @ text_words ([0x04, 0x03] @ take 2 (str @ [0])),
          bin_3 := bin_3 s @ [0x04, 0x03] @ take 2 (str @ [0]),
          bytes_written_3 := bytes_written_3 s + 4\<rparr>)"
proof -
  define w_str where "w_str = take 2 (str @ [0])"
  have lw: "length w_str = 2"
    using assms by (simp add: w_str_def)
  have unf: "add_string w 0 str =
      steps [
        ok (\<lambda>s. s\<lparr>buf_2 := (\<lambda>_. 0)\<rparr>),
        ok (\<lambda>s. s\<lparr>a := Some 0\<rparr>),
        ok (print_offsets ''STRING0'' 1 1),
        (\<lambda>s. Inr s),
        put_a 4,
        put_a 0x03,
        memcpy_a w_str 2,
        write_buf_buf_2 4]"
    unfolding add_string_def Let_def w_str_def using assms by (simp add: decimal.simps)
  have tk: "take 4 (4 # 3 # w_str) = 4 # 3 # w_str" "take 2 w_str = w_str"
    using lw by simp_all
  have mp: "map (\<lambda>_::nat. 0::u8) [length w_str + 2..<4] = []"
    using lw by simp
  show ?thesis
    unfolding unf w_str_def [symmetric]
    using lw by (simp add: eval_simps tk)
qed

text \<open>
  C7. The encoder takes the length \<open>2 + 2 * character_count\<close> and copies that many bytes
  less 2 out of the wide string, whatever the size of a wide character is. Where
  \<^verbatim>\<open>wchar_t\<close> has 4 bytes, \<^verbatim>\<open>add_string(1, "AB")\<close> gives the six bytes 06 03 41 00 00 00 in
  the USB2 stream (and two more zero bytes in the USB3 stream): the first character
  takes a 4-byte unit and the second one, 0x42, is not in the descriptor. With one
  2-byte unit per character the bytes would be 06 03 41 00 42 00.
\<close>

theorem wide_wchar_string_descriptor:
  "\<exists>s. wide_string_run = Inr s
     \<and> bin_2 s = [0x06, 0x03, 0x41, 0x00, 0x00, 0x00]
     \<and> bin_3 s = [0x06, 0x03, 0x41, 0x00, 0x00, 0x00, 0x00, 0x00]
     \<and> c_string ''AB'' ! 1 = 0x42 \<and> bin_2 s ! 4 \<noteq> c_string ''AB'' ! 1"
proof -
  have n: "strlen (c_string ''AB'') = 2"
    by (simp add: c_string_def strlen_def)
  have a: "list_all (\<lambda>c. c < 0x80) (takeWhile (\<lambda>c. c \<noteq> 0) (c_string ''AB''))"
    by (simp add: c_string_def)
  have i: "(1::u8) \<noteq> 0"
    by simp
  have d: "string_descr 4 (c_string ''AB'') = [0x06, 0x03, 0x41, 0x00, 0x00, 0x00]"
    by (simp add: string_descr_def c_string_def wchar_bytes_def strlen_def numeral_3_eq_3)
  have n': "strlen (c_string ''AB'') \<le> 128" and w: "(2::nat) \<le> 4"
    by (simp_all add: n)
  have c: "c_string ''AB'' ! 1 = 0x42"
    by (simp add: c_string_def)
  have r: "replicate 2 (0::u8) = [0, 0]"
    by (simp add: numeral_2_eq_2)
  show ?thesis
    unfolding wide_string_run_def add_string_eff [OF i n' w a] d n c
    by (simp add: init_state_def r)
qed

section \<open>Padding\<close>

lemma pad_byte:
  "write_buf8 [0x00, 0x00] 1 s =
     Inr (s\<lparr>init_2 := init_2 s @ [0], bin_2 := bin_2 s @ [0],
            bytes_written_2 := bytes_written_2 s + 1\<rparr>)"
  by (simp add: write_buf8_eff)

lemma text_words_zero: "text_words [0, 0, 0, 0] = [0]"
  by (simp add: text_words_def load32_def bswap_def)

lemma pad_word:
  "write_buf32 [0x00, 0x00, 0x00, 0x00, 0x00] 1 s =
     Inr (s\<lparr>init_3 := init_3 s @ [0], bin_3 := bin_3 s @ [0, 0, 0, 0],
            bytes_written_3 := bytes_written_3 s + 4\<rparr>)"
  by (simp add: write_buf32_text nwords_def text_words_zero)

lemma pad_2_eff:
  assumes bw: "unat (bitwidth_2 s) < 32"
  shows "2 ^ unat (bitwidth_2 s) - unat (bytes_written_2 s) = k \<Longrightarrow>
    pad_2 s = Some (Inr (s\<lparr>init_2 := init_2 s @ replicate k 0,
        bin_2 := bin_2 s @ replicate k 0,
        bytes_written_2 := bytes_written_2 s + word_of_nat k\<rparr>))"
  using bw
proof (induction k arbitrary: s)
  case 0
  then have "\<not> unat (bytes_written_2 s) < 2 ^ unat (bitwidth_2 s)"
    by simp
  then show ?case
    by (subst pad_2.simps) simp
next
  case (Suc k)
  let ?s1 = "s\<lparr>init_2 := init_2 s @ [0], bin_2 := bin_2 s @ [0],
            bytes_written_2 := bytes_written_2 s + 1\<rparr>"
  from Suc.prems have lt: "unat (bytes_written_2 s) < 2 ^ unat (bitwidth_2 s)"
    by simp
  have "(2::nat) ^ unat (bitwidth_2 s) \<le> 2 ^ 31"
    using Suc.prems(2) by (intro power_increasing) simp_all
  with lt have "unat (bytes_written_2 s) + 1 < 2 ^ 32"
    by simp
  then have u: "unat (bytes_written_2 s + 1) = unat (bytes_written_2 s) + 1"
    by (simp add: unat_word_ariths)
  have k: "2 ^ unat (bitwidth_2 ?s1) - unat (bytes_written_2 ?s1) = k"
    using Suc.prems(1) by (simp add: u)
  have ih: "pad_2 ?s1 = Some (Inr (?s1\<lparr>init_2 := init_2 ?s1 @ replicate k 0,
        bin_2 := bin_2 ?s1 @ replicate k 0,
        bytes_written_2 := bytes_written_2 ?s1 + word_of_nat k\<rparr>))"
    using Suc.prems(2) by (intro Suc.IH [OF k]) simp
  have r: "[0::u8] @ replicate k 0 = replicate (Suc k) 0"
    by simp
  have step: "pad_2 s = pad_2 ?s1"
    by (subst pad_2.simps) (simp add: lt pad_byte)
  show ?case
    unfolding step ih by (simp add: add.assoc)
qed

lemma words_left_0: "(T - b + 3) div 4 = (0::nat) \<Longrightarrow> \<not> b < T"
  by arith

lemma words_left_Suc: "(T - b + 3) div 4 = Suc k \<Longrightarrow> b < T \<and> (T - (b + 4) + 3) div 4 = k"
  by arith

lemma pad_3_eff:
  assumes bw: "unat (bitwidth_3 s) < 30"
  shows "(2 ^ unat (bitwidth_3 s) * 4 - unat (bytes_written_3 s) + 3) div 4 = k \<Longrightarrow>
    pad_3 s = Some (Inr (s\<lparr>init_3 := init_3 s @ replicate k 0,
        bin_3 := bin_3 s @ replicate (4 * k) 0,
        bytes_written_3 := bytes_written_3 s + word_of_nat (4 * k)\<rparr>))"
  using bw
proof (induction k arbitrary: s)
  case 0
  then have "\<not> unat (bytes_written_3 s) < 2 ^ unat (bitwidth_3 s) * 4"
    by (intro words_left_0)
  then show ?case
    by (subst pad_3.simps) simp
next
  case (Suc k)
  let ?s1 = "s\<lparr>init_3 := init_3 s @ [0], bin_3 := bin_3 s @ [0, 0, 0, 0],
            bytes_written_3 := bytes_written_3 s + 4\<rparr>"
  note ws = words_left_Suc [OF Suc.prems(1)]
  from ws have lt: "unat (bytes_written_3 s) < 2 ^ unat (bitwidth_3 s) * 4"
    by simp
  have "(2::nat) ^ unat (bitwidth_3 s) \<le> 2 ^ 29"
    using Suc.prems(2) by (intro power_increasing) simp_all
  with lt have "unat (bytes_written_3 s) + 4 < 2 ^ 32"
    by simp
  then have u: "unat (bytes_written_3 s + 4) = unat (bytes_written_3 s) + 4"
    by (simp add: unat_word_ariths)
  have k: "(2 ^ unat (bitwidth_3 ?s1) * 4 - unat (bytes_written_3 ?s1) + 3) div 4 = k"
    using ws by (simp add: u)
  have ih: "pad_3 ?s1 = Some (Inr (?s1\<lparr>init_3 := init_3 ?s1 @ replicate k 0,
        bin_3 := bin_3 ?s1 @ replicate (4 * k) 0,
        bytes_written_3 := bytes_written_3 ?s1 + word_of_nat (4 * k)\<rparr>))"
    using Suc.prems(2) by (intro Suc.IH [OF k]) simp
  have step: "pad_3 s = pad_3 ?s1"
    by (subst pad_3.simps) (simp add: lt pad_word)
  have r: "[0, 0, 0, 0] @ replicate (4 * k) (0::u8) = replicate (4 * Suc k) 0"
    by (simp add: numeral_eq_Suc)
  show ?case
    unfolding step ih using r by (simp add: add.assoc)
qed

lemma unat_add_of_nat:
  assumes "unat (c::u32) + k < 2 ^ 32"
  shows "unat (c + word_of_nat k) = unat c + k"
proof -
  have "k < 2 ^ 32"
    using assms by simp
  then have "unat (word_of_nat k :: u32) = k"
    by (rule unat_of_nat32)
  then show ?thesis
    using assms by (simp add: unat_word_ariths)
qed

lemma words_left_bound:
  assumes "T < 2 ^ 31 + 1" and "b < 2 ^ 32"
  shows "b + 4 * ((T - b + 3) div 4) < (2::nat) ^ 32"
proof (cases "b < T")
  case True
  have "4 * ((T - b + 3) div 4) \<le> T - b + 3"
    by arith
  with True have "b + 4 * ((T - b + 3) div 4) \<le> T + 3"
    by simp
  with assms(1) show ?thesis
    by simp
next
  case False
  then have "T - b = 0"
    by simp
  with assms(2) show ?thesis
    by simp
qed

lemma words_left_dvd:
  assumes "4 dvd (T::nat)" and "4 dvd b"
  shows "b + 4 * ((T - b + 3) div 4) = max T b"
proof -
  from assms have "4 dvd T - b"
    by (rule dvd_diff_nat)
  then obtain j where j: "T - b = 4 * j"
    by (auto simp: dvd_def)
  have "(4 * j + 3) div 4 = j"
    by arith
  then have "b + 4 * ((T - b + 3) div 4) = b + (T - b)"
    by (simp add: j)
  then show ?thesis
    by simp
qed

lemma pad_eff:
  assumes b2: "unat (bitwidth_2 s) < 32" and b3: "unat (bitwidth_3 s) < 30"
  shows "\<exists>s'. pad s = Some (Inr s')
     \<and> descrip_vh s' = descrip_vh s
     \<and> bin_2 s' = bin_2 s @ replicate (2 ^ unat (bitwidth_2 s) - unat (bytes_written_2 s)) 0
     \<and> bin_3 s' = bin_3 s @ replicate
           (4 * ((2 ^ unat (bitwidth_3 s) * 4 - unat (bytes_written_3 s) + 3) div 4)) 0
     \<and> unat (bytes_written_2 s) \<le> unat (bytes_written_2 s')
     \<and> unat (bytes_written_3 s) \<le> unat (bytes_written_3 s')
     \<and> unat (bytes_written_2 s') = max (2 ^ unat (bitwidth_2 s)) (unat (bytes_written_2 s))
     \<and> unat (bytes_written_3 s') = unat (bytes_written_3 s)
           + 4 * ((2 ^ unat (bitwidth_3 s) * 4 - unat (bytes_written_3 s) + 3) div 4)
     \<and> (4 dvd unat (bytes_written_3 s) \<longrightarrow>
          unat (bytes_written_3 s')
            = max (2 ^ unat (bitwidth_3 s) * 4) (unat (bytes_written_3 s)))"
proof -
  define T2 :: nat where "T2 = 2 ^ unat (bitwidth_2 s)"
  define T3 :: nat where "T3 = 2 ^ unat (bitwidth_3 s) * 4"
  define k2 where "k2 = T2 - unat (bytes_written_2 s)"
  define k3 where "k3 = (T3 - unat (bytes_written_3 s) + 3) div 4"
  have "(2::nat) ^ unat (bitwidth_2 s) \<le> 2 ^ 31"
    using b2 by (intro power_increasing) simp_all
  then have T2: "T2 < 2 ^ 32"
    by (simp add: T2_def)
  have "(2::nat) ^ unat (bitwidth_3 s) \<le> 2 ^ 29"
    using b3 by (intro power_increasing) simp_all
  then have T3: "T3 < 2 ^ 31 + 1"
    by (simp add: T3_def)
  have d3: "4 dvd T3"
    by (simp add: T3_def)
  define s2 where "s2 = s\<lparr>init_2 := init_2 s @ replicate k2 0,
        bin_2 := bin_2 s @ replicate k2 0,
        bytes_written_2 := bytes_written_2 s + word_of_nat k2\<rparr>"
  have p2: "pad_2 s = Some (Inr s2)"
    unfolding s2_def using b2 by (intro pad_2_eff) (simp_all add: k2_def T2_def)
  define s3 where "s3 = s2\<lparr>init_3 := init_3 s2 @ replicate k3 0,
        bin_3 := bin_3 s2 @ replicate (4 * k3) 0,
        bytes_written_3 := bytes_written_3 s2 + word_of_nat (4 * k3)\<rparr>"
  have p3: "pad_3 s2 = Some (Inr s3)"
    unfolding s3_def using b3 by (intro pad_3_eff) (simp_all add: s2_def T3_def k3_def)
  have run: "pad s = Some (Inr s3)"
    by (simp add: pad_def p2 p3)
  have c2: "unat (bytes_written_2 s3) = unat (bytes_written_2 s) + k2"
  proof -
    have "unat (bytes_written_2 s) + k2 < 2 ^ 32"
      using T2 unsigned_less [of "bytes_written_2 s", where ?'a = nat]
      by (simp add: k2_def)
    moreover have "bytes_written_2 s3 = bytes_written_2 s + word_of_nat k2"
      by (simp add: s3_def s2_def)
    ultimately show ?thesis
      by (simp only: unat_add_of_nat)
  qed
  have c3: "unat (bytes_written_3 s3) = unat (bytes_written_3 s) + 4 * k3"
  proof -
    have "unat (bytes_written_3 s) < 2 ^ 32"
      using unsigned_less [of "bytes_written_3 s", where ?'a = nat] by simp
    with T3 have "unat (bytes_written_3 s) + 4 * k3 < 2 ^ 32"
      unfolding k3_def by (rule words_left_bound)
    moreover have "bytes_written_3 s3 = bytes_written_3 s + word_of_nat (4 * k3)"
      by (simp add: s3_def s2_def)
    ultimately show ?thesis
      by (simp only: unat_add_of_nat)
  qed
  have "descrip_vh s3 = descrip_vh s"
    and "bin_2 s3 = bin_2 s @ replicate (T2 - unat (bytes_written_2 s)) 0"
    and "bin_3 s3 = bin_3 s @ replicate (4 * ((T3 - unat (bytes_written_3 s) + 3) div 4)) 0"
    by (simp_all add: s3_def s2_def k2_def k3_def)
  moreover have "unat (bytes_written_2 s) \<le> unat (bytes_written_2 s3)"
    and "unat (bytes_written_3 s) \<le> unat (bytes_written_3 s3)"
    by (simp_all add: c2 c3)
  moreover have "unat (bytes_written_2 s3) = max T2 (unat (bytes_written_2 s))"
    by (simp add: c2 k2_def)
  moreover have "unat (bytes_written_3 s3) = unat (bytes_written_3 s)
      + 4 * ((T3 - unat (bytes_written_3 s) + 3) div 4)"
    by (simp add: c3 k3_def)
  moreover have "4 dvd unat (bytes_written_3 s) \<longrightarrow>
      unat (bytes_written_3 s3) = max T3 (unat (bytes_written_3 s))"
    unfolding c3 k3_def using d3 by (intro impI words_left_dvd)
  ultimately show ?thesis
    unfolding T2_def T3_def using run by (intro exI [of _ s3]) simp
qed

text \<open>
  C6, as amended. For a USB2 bit width below 32 and a USB3 bit width below 30 (so that
  the targets fit the 32-bit counters) the padding ends. It appends zero bytes only and
  reduces neither counter. The USB2 total after it is the larger of \<open>2 ^ bitwidth_2\<close> and
  the total before it. The USB3 stream is padded by whole words: its total grows by 4 for
  every word begun below the target \<open>2 ^ bitwidth_3 * 4\<close>, and whenever the total before
  the padding is a multiple of 4 the total after it is the larger of the target and the
  total before. So the USB2 stream, where it has not exceeded its target, ends at exactly
  the target, and so does the USB3 stream where its total before the padding is a multiple
  of 4; a stream that has reached its target stays as it was, with nothing appended.
\<close>

theorem padding_totals:
  assumes b2: "unat (bitwidth_2 s) < 32" and b3: "unat (bitwidth_3 s) < 30"
  shows "\<exists>s'. pad s = Some (Inr s')
     \<and> bin_2 s' = bin_2 s @ replicate (2 ^ unat (bitwidth_2 s) - unat (bytes_written_2 s)) 0
     \<and> bin_3 s' = bin_3 s @ replicate
           (4 * ((2 ^ unat (bitwidth_3 s) * 4 - unat (bytes_written_3 s) + 3) div 4)) 0
     \<and> unat (bytes_written_2 s) \<le> unat (bytes_written_2 s')
     \<and> unat (bytes_written_3 s) \<le> unat (bytes_written_3 s')
     \<and> unat (bytes_written_2 s') = max (2 ^ unat (bitwidth_2 s)) (unat (bytes_written_2 s))
     \<and> unat (bytes_written_3 s') = unat (bytes_written_3 s)
           + 4 * ((2 ^ unat (bitwidth_3 s) * 4 - unat (bytes_written_3 s) + 3) div 4)
     \<and> (4 dvd unat (bytes_written_3 s) \<longrightarrow>
          unat (bytes_written_3 s')
            = max (2 ^ unat (bitwidth_3 s) * 4) (unat (bytes_written_3 s)))"
  using pad_eff [OF assms] by blast

theorem padding_totals_witness:
  "unat (bitwidth_2 (projr main_device_run)) < 32
   \<and> unat (bitwidth_3 (projr main_device_run)) < 30
   \<and> 4 dvd unat (bytes_written_3 (projr main_device_run))
   \<and> unat (bytes_written_2 (projr main_device_run)) = 28
   \<and> unat (bytes_written_3 (projr main_device_run)) = 20
   \<and> (\<exists>s'. pad (projr main_device_run) = Some (Inr s')
        \<and> unat (bytes_written_2 s') = 256 \<and> unat (bytes_written_3 s') = 512
        \<and> length (bin_2 s') = 256 \<and> length (bin_3 s') = 512)"
proof -
  let ?s = "projr main_device_run"
  have f: "unat (bitwidth_2 ?s) = 8" "unat (bitwidth_3 ?s) = 7"
    "unat (bytes_written_2 ?s) = 28" "unat (bytes_written_3 ?s) = 20"
    "length (bin_2 ?s) = 28" "length (bin_3 ?s) = 20"
    by (simp_all add: main_device_run_def add_device_descr_eff init_state_def)
  have h: "unat (bitwidth_2 ?s) < 32" "unat (bitwidth_3 ?s) < 30"
    by (simp_all add: f)
  show ?thesis
    using padding_totals [OF h] by (auto simp: f)
qed

text \<open>
  C6 as stated fails for a small memory: with both bit widths 1 the device descriptor
  alone is 28 bytes on USB2 and 20 on USB3; the padding appends nothing, and the totals
  stay 28 and 20, not 2 and 8.
\<close>

theorem padding_totals_counterexample:
  "small_memory_run \<noteq> None \<and> \<not> isl (the small_memory_run)
   \<and> unat (bitwidth_2 (projr (the small_memory_run))) = 1
   \<and> unat (bytes_written_2 (projr (the small_memory_run))) = 28
   \<and> unat (bitwidth_3 (projr (the small_memory_run))) = 1
   \<and> unat (bytes_written_3 (projr (the small_memory_run))) = 20
   \<and> (28::nat) \<noteq> 2 ^ 1 \<and> (20::nat) \<noteq> 2 ^ 1 * 4"
proof -
  let ?s = "projr (add_device_descr 0x300 0xFF 0xFF 0xFF 64 0x1D50 0x605A 0x1 1 2 3 1
             (init_state\<lparr>bitwidth_2 := 1, bitwidth_3 := 1\<rparr>))"
  have f: "unat (bitwidth_2 ?s) = 1" "unat (bitwidth_3 ?s) = 1"
    "unat (bytes_written_2 ?s) = 28" "unat (bytes_written_3 ?s) = 20"
    by (simp_all add: add_device_descr_eff init_state_def)
  have p2: "pad_2 ?s = Some (Inr ?s)"
    by (subst pad_2.simps) (simp add: f)
  have p3: "pad_3 ?s = Some (Inr ?s)"
    by (subst pad_3.simps) (simp add: f)
  have r: "small_memory_run = Some (Inr ?s)"
    by (simp add: small_memory_run_def add_device_descr_eff pad_def p2 [simplified add_device_descr_eff, simplified] p3 [simplified add_device_descr_eff, simplified])
  show ?thesis
    unfolding r option.sel sum.sel using f by simp
qed
section \<open>BOS, set markers and the driver\<close>

lemma add_bos_eff:
  "add_bos s =
     Inr (s\<lparr>z := Some 22,
          descrip_vh := descrip_vh s @
            [\<lparr>target = USB3, msb = uint (bitwidth_3 s) - 1, pname = ''BOS    '',
               pvalue = sint (i_3 s)\<rparr>],
          buf_3 := store_bytes (buf_3 s) 0
            [0x05, 0x0F, 0x16, 0x00, 0x02, 0x07, 0x10, 0x02, 0x02, 0x00, 0x00, 0x00,
             0x0A, 0x10, 0x03, 0x00, 0x0E, 0x00, 0x02, 0x08, 0x64, 0x00],
          init_3 := init_3 s @ text_words
            [0x05, 0x0F, 0x16, 0x00, 0x02, 0x07, 0x10, 0x02, 0x02, 0x00, 0x00, 0x00,
             0x0A, 0x10, 0x03, 0x00, 0x0E, 0x00, 0x02, 0x08, 0x64, 0x00,
             buf_3 s 22, buf_3 s 23],
          bin_3 := bin_3 s @
            [0x05, 0x0F, 0x16, 0x00, 0x02, 0x07, 0x10, 0x02, 0x02, 0x00, 0x00, 0x00,
             0x0A, 0x10, 0x03, 0x00, 0x0E, 0x00, 0x02, 0x08, 0x64, 0x00,
             buf_3 s 22, buf_3 s 23],
          bytes_written_3 := bytes_written_3 s + 24\<rparr>)"
  by (simp add: add_bos_def eval_simps)

lemma add_set_eff:
  assumes "2 \<le> length after0" and "2 \<le> length after1"
  shows "add_set after0 after1 s =
     Inr (s\<lparr>descrip_vh := descrip_vh s @
            [\<lparr>target = USB2, msb = uint (bitwidth_2 s) - 1, pname = ''CONFUNSET'',
               pvalue = sint (i_2 s)\<rparr>,
             \<lparr>target = USB3, msb = uint (bitwidth_3 s) - 1, pname = ''CONFUNSET'',
               pvalue = sint (i_3 s)\<rparr>,
             \<lparr>target = USB2, msb = uint (bitwidth_2 s) - 1, pname = ''CONFSET'',
               pvalue = sint (i_2 s)\<rparr>,
             \<lparr>target = USB3, msb = uint (bitwidth_3 s) - 1, pname = ''CONFSET'',
               pvalue = sint (i_3 s)\<rparr>],
          init_2 := init_2 s @ [0x00, 0x01],
          bin_2 := bin_2 s @ [0x00, 0x01],
          bytes_written_2 := bytes_written_2 s + 2,
          init_3 := init_3 s @ text_words ([0x00, 0x00] @ take 2 after0)
            @ text_words ([0x01, 0x00] @ take 2 after1),
          bin_3 := bin_3 s @ [0x00, 0x00] @ take 2 after0 @ [0x01, 0x00] @ take 2 after1,
          bytes_written_3 := bytes_written_3 s + 8\<rparr>)"
  using assms
  by (simp add: add_set_def stmt_defs write_buf8_eff write_buf32_text nwords_def)

lemma print_config_len_eff:
  "print_config_len s =
     Inr (s\<lparr>descrip_vh := descrip_vh s @
            [\<lparr>target = USB2, msb = uint (bitwidth_2 s) - 1, pname = ''CONFIG_LEN'',
               pvalue = sint (bytes_pending_2 s)\<rparr>,
             \<lparr>target = USB3, msb = uint (bitwidth_3 s) - 1, pname = ''CONFIG_LEN'',
               pvalue = sint (bytes_pending_3 s)\<rparr>]\<rparr>)"
  by (simp add: print_config_len_def stmt_defs)

lemma print_bos_len_eff:
  "z s = Some k \<Longrightarrow>
   print_bos_len s =
     Inr (s\<lparr>descrip_vh := descrip_vh s @
            [\<lparr>target = USB3, msb = uint (bitwidth_3 s) - 1, pname = ''BOS_LEN'',
               pvalue = sint (word_of_nat k :: u32)\<rparr>]\<rparr>)"
  by (simp add: print_bos_len_def stmt_defs)
lemma main_strlens:
  "strlen (c_string ''Great Scott Gadgets'') = 19"
  "strlen (c_string ''Daisho USB test'') = 15"
  "strlen (c_string ''DAISHOUSB000'') = 12"
  by (simp_all add: c_string_def strlen_def)

lemma main_ascii:
  "list_all (\<lambda>c. c < 0x80) (takeWhile (\<lambda>c. c \<noteq> 0) (c_string ''Great Scott Gadgets''))"
  "list_all (\<lambda>c. c < 0x80) (takeWhile (\<lambda>c. c \<noteq> 0) (c_string ''Daisho USB test''))"
  "list_all (\<lambda>c. c < 0x80) (takeWhile (\<lambda>c. c \<noteq> 0) (c_string ''DAISHOUSB000''))"
  by (simp_all add: c_string_def)

lemma main_emit_eff:
  assumes "2 \<le> w" and "fopen_ok filename_usb2_init" and "fopen_ok filename_usb3_init"
    and "fopen_ok filename_usb2_bin" and "fopen_ok filename_usb3_bin"
    and "fopen_ok filename_descrip_vh"
    and "2 \<le> length after0" and "2 \<le> length after1"
  shows "\<exists>s. main_emit w fopen_ok after0 after1 init_state = Inr s
     \<and> descrip_vh s = main_table
     \<and> bitwidth_2 s = 8 \<and> bitwidth_3 s = 7
     \<and> bytes_written_2 s = 173 \<and> bytes_written_3 s = 212
     \<and> length (bin_2 s) = 173 \<and> length (bin_3 s) = 212"
  using assms
  by (simp add: main_emit_def main_table_def init_state_def ok_def fail_def print_offsets_def
      add_device_descr_eff add_config_start_eff
      add_endpoint_eff [where ka = 18 and kz = 18]
      add_endpoint_eff [where ka = 25 and kz = 31]
      add_config_end_eff [where ka = 32 and kz = 44]
      print_config_len_eff add_bos_eff print_bos_len_eff [where k = 22]
      add_string0_eff add_string_eff add_set_eff main_strlens main_ascii length_string_descr
      decimal.simps BUF_SIZE_def nwords_def)

section \<open>The output only grows\<close>

lemma load32_append1: "p + 4 \<le> length bs \<Longrightarrow> load32 (bs @ cs) p = load32 bs p"
  by (simp add: load32_def nth_append)

lemma load32_append2: "load32 (bs @ cs) (length bs + p) = load32 cs p"
  by (simp add: load32_def nth_append add.assoc)

lemma text_words_nil [simp]: "text_words [] = []"
  by (simp add: text_words_def)

lemma length_text_words [simp]: "length (text_words bs) = length bs div 4"
  by (simp add: text_words_def)

lemma nth_text_words:
  "i < length bs div 4 \<Longrightarrow> text_words bs ! i = bswap (load32 bs (4 * i))"
  by (simp add: text_words_def)

lemma text_words_append:
  assumes "4 dvd length bs"
  shows "text_words (bs @ cs) = text_words bs @ text_words cs"
proof (rule nth_equalityI)
  from assms obtain m where m: "length bs = 4 * m"
    by (auto simp: dvd_def)
  have l: "length (bs @ cs) div 4 = m + length cs div 4"
    by (simp add: m)
  show "length (text_words (bs @ cs)) = length (text_words bs @ text_words cs)"
    by (simp add: m)
  fix i
  assume "i < length (text_words (bs @ cs))"
  then have i: "i < m + length cs div 4"
    by (simp add: m)
  have lhs: "text_words (bs @ cs) ! i = bswap (load32 (bs @ cs) (4 * i))"
    using i l by (intro nth_text_words) simp
  show "text_words (bs @ cs) ! i = (text_words bs @ text_words cs) ! i"
  proof (cases "i < m")
    case True
    then have "4 * i + 4 \<le> length bs"
      by (simp add: m)
    then have "load32 (bs @ cs) (4 * i) = load32 bs (4 * i)"
      by (rule load32_append1)
    moreover have "(text_words bs @ text_words cs) ! i = text_words bs ! i"
      using True by (simp add: nth_append m)
    moreover have "text_words bs ! i = bswap (load32 bs (4 * i))"
      using True by (intro nth_text_words) (simp add: m)
    ultimately show ?thesis
      by (simp only: lhs)
  next
    case False
    then obtain j where j: "i = m + j"
      using le_Suc_ex [of m i] by auto
    with i have jl: "j < length cs div 4"
      by simp
    have "4 * i = length bs + 4 * j"
      by (simp add: j m)
    then have "load32 (bs @ cs) (4 * i) = load32 cs (4 * j)"
      by (simp only: load32_append2)
    moreover have "(text_words bs @ text_words cs) ! i = text_words cs ! j"
      by (simp add: nth_append m j)
    moreover have "text_words cs ! j = bswap (load32 cs (4 * j))"
      using jl by (rule nth_text_words)
    ultimately show ?thesis
      by (simp only: lhs)
  qed
qed

lemma stream_extends_refl [simp]: "stream_extends s s"
  unfolding stream_extends_def
  by (intro conjI exI [of _ "[]"]) simp_all

lemma stream_extends_trans:
  assumes "stream_extends s t" and "stream_extends t u"
  shows "stream_extends s u"
proof -
  from assms(1) have "\<exists>b2. bin_2 t = bin_2 s @ b2 \<and> init_2 t = init_2 s @ b2
        \<and> bytes_written_2 t = bytes_written_2 s + word_of_nat (length b2)"
    and "\<exists>b3. 4 dvd length b3 \<and> bin_3 t = bin_3 s @ b3 \<and> init_3 t = init_3 s @ text_words b3
        \<and> bytes_written_3 t = bytes_written_3 s + word_of_nat (length b3)"
    and "\<exists>ds. descrip_vh t = descrip_vh s @ ds"
    unfolding stream_extends_def by simp_all
  then obtain b2 b3 ds where
    1: "bin_2 t = bin_2 s @ b2" "init_2 t = init_2 s @ b2"
      "bytes_written_2 t = bytes_written_2 s + word_of_nat (length b2)"
      "4 dvd length b3" "bin_3 t = bin_3 s @ b3" "init_3 t = init_3 s @ text_words b3"
      "bytes_written_3 t = bytes_written_3 s + word_of_nat (length b3)"
      "descrip_vh t = descrip_vh s @ ds"
    by (elim exE conjE)
  from assms(2) have "\<exists>c2. bin_2 u = bin_2 t @ c2 \<and> init_2 u = init_2 t @ c2
        \<and> bytes_written_2 u = bytes_written_2 t + word_of_nat (length c2)"
    and "\<exists>c3. 4 dvd length c3 \<and> bin_3 u = bin_3 t @ c3 \<and> init_3 u = init_3 t @ text_words c3
        \<and> bytes_written_3 u = bytes_written_3 t + word_of_nat (length c3)"
    and "\<exists>es. descrip_vh u = descrip_vh t @ es"
    unfolding stream_extends_def by simp_all
  then obtain c2 c3 es where
    2: "bin_2 u = bin_2 t @ c2" "init_2 u = init_2 t @ c2"
      "bytes_written_2 u = bytes_written_2 t + word_of_nat (length c2)"
      "4 dvd length c3" "bin_3 u = bin_3 t @ c3" "init_3 u = init_3 t @ text_words c3"
      "bytes_written_3 u = bytes_written_3 t + word_of_nat (length c3)"
      "descrip_vh u = descrip_vh t @ es"
    by (elim exE conjE)
  show ?thesis
    unfolding stream_extends_def
  proof (intro conjI)
    show "\<exists>b. bin_2 u = bin_2 s @ b \<and> init_2 u = init_2 s @ b
        \<and> bytes_written_2 u = bytes_written_2 s + word_of_nat (length b)"
      by (rule exI [of _ "b2 @ c2"]) (simp add: 1 2)
    show "\<exists>b. 4 dvd length b \<and> bin_3 u = bin_3 s @ b \<and> init_3 u = init_3 s @ text_words b
        \<and> bytes_written_3 u = bytes_written_3 s + word_of_nat (length b)"
      by (rule exI [of _ "b3 @ c3"]) (simp add: 1 2 text_words_append)
    show "\<exists>d. descrip_vh u = descrip_vh s @ d"
      by (rule exI [of _ "ds @ es"]) (simp add: 1 2)
  qed
qed

lemma stream_extends_same:
  assumes "bin_2 t = bin_2 s" "init_2 t = init_2 s" "bytes_written_2 t = bytes_written_2 s"
    "bin_3 t = bin_3 s" "init_3 t = init_3 s" "bytes_written_3 t = bytes_written_3 s"
    "descrip_vh t = descrip_vh s"
  shows "stream_extends s t"
  unfolding stream_extends_def
  by (intro conjI exI [of _ "[]"]) (simp_all add: assms)

lemma ext_steps: "list_all ext_stmt fs \<Longrightarrow> ext_stmt (steps fs)"
proof (induction fs)
  case Nil
  then show ?case by (simp add: ext_stmt_def)
next
  case (Cons f fs)
  then have f: "ext_stmt f" and fs: "ext_stmt (steps fs)"
    by simp_all
  show ?case
    unfolding ext_stmt_def
  proof (intro allI impI)
    fix s t
    assume "steps (f # fs) s = Inr t"
    then obtain s' where "f s = Inr s'" and "steps fs s' = Inr t"
      by (auto split: sum.splits)
    with f fs show "stream_extends s t"
      unfolding ext_stmt_def by (blast intro: stream_extends_trans)
  qed
qed

lemma stream_extends_usb2:
  assumes "bin_2 t = bin_2 s @ b" "init_2 t = init_2 s @ b"
    "bytes_written_2 t = bytes_written_2 s + word_of_nat (length b)"
    "bin_3 t = bin_3 s" "init_3 t = init_3 s" "bytes_written_3 t = bytes_written_3 s"
    "descrip_vh t = descrip_vh s"
  shows "stream_extends s t"
  unfolding stream_extends_def
proof (intro conjI)
  show "\<exists>b2. bin_2 t = bin_2 s @ b2 \<and> init_2 t = init_2 s @ b2
      \<and> bytes_written_2 t = bytes_written_2 s + word_of_nat (length b2)"
    by (rule exI [of _ b]) (simp add: assms)
  show "\<exists>b3. 4 dvd length b3 \<and> bin_3 t = bin_3 s @ b3 \<and> init_3 t = init_3 s @ text_words b3
      \<and> bytes_written_3 t = bytes_written_3 s + word_of_nat (length b3)"
    by (rule exI [of _ "[]"]) (simp add: assms)
  show "\<exists>ds. descrip_vh t = descrip_vh s @ ds"
    by (simp add: assms)
qed

lemma stream_extends_usb3:
  assumes "4 dvd length b" "bin_3 t = bin_3 s @ b" "init_3 t = init_3 s @ text_words b"
    "bytes_written_3 t = bytes_written_3 s + word_of_nat (length b)"
    "bin_2 t = bin_2 s" "init_2 t = init_2 s" "bytes_written_2 t = bytes_written_2 s"
    "descrip_vh t = descrip_vh s"
  shows "stream_extends s t"
  unfolding stream_extends_def
proof (intro conjI)
  show "\<exists>b2. bin_2 t = bin_2 s @ b2 \<and> init_2 t = init_2 s @ b2
      \<and> bytes_written_2 t = bytes_written_2 s + word_of_nat (length b2)"
    by (rule exI [of _ "[]"]) (simp add: assms)
  show "\<exists>b3. 4 dvd length b3 \<and> bin_3 t = bin_3 s @ b3 \<and> init_3 t = init_3 s @ text_words b3
      \<and> bytes_written_3 t = bytes_written_3 s + word_of_nat (length b3)"
    by (rule exI [of _ b]) (simp add: assms)
  show "\<exists>ds. descrip_vh t = descrip_vh s @ ds"
    by (simp add: assms)
qed

lemma stream_extends_print_offsets:
  "stream_extends s (print_offsets name for_usb2 for_usb3 s)"
  unfolding stream_extends_def
proof (intro conjI)
  let ?t = "print_offsets name for_usb2 for_usb3 s"
  show "\<exists>b2. bin_2 ?t = bin_2 s @ b2 \<and> init_2 ?t = init_2 s @ b2
      \<and> bytes_written_2 ?t = bytes_written_2 s + word_of_nat (length b2)"
    by (rule exI [of _ "[]"]) (simp add: print_offsets_def)
  show "\<exists>b3. 4 dvd length b3 \<and> bin_3 ?t = bin_3 s @ b3 \<and> init_3 ?t = init_3 s @ text_words b3
      \<and> bytes_written_3 ?t = bytes_written_3 s + word_of_nat (length b3)"
    by (rule exI [of _ "[]"]) (simp add: print_offsets_def)
  show "\<exists>ds. descrip_vh ?t = descrip_vh s @ ds"
    by (simp add: print_offsets_def)
qed

lemma ext_print_offsets: "ext_stmt (ok (print_offsets name for_usb2 for_usb3))"
  unfolding ext_stmt_def ok_def
proof (intro allI impI)
  fix s t
  assume "Inr (print_offsets name for_usb2 for_usb3 s) = (Inr t :: error + state)"
  then have "t = print_offsets name for_usb2 for_usb3 s"
    by simp
  then show "stream_extends s t"
    by (simp only: stream_extends_print_offsets)
qed

lemma ext_ok_same:
  assumes "\<forall>s. bin_2 (g s) = bin_2 s \<and> init_2 (g s) = init_2 s
      \<and> bytes_written_2 (g s) = bytes_written_2 s
      \<and> bin_3 (g s) = bin_3 s \<and> init_3 (g s) = init_3 s
      \<and> bytes_written_3 (g s) = bytes_written_3 s \<and> descrip_vh (g s) = descrip_vh s"
  shows "ext_stmt (ok g)"
  unfolding ext_stmt_def ok_def
proof (intro allI impI)
  fix s t
  assume "Inr (g s) = (Inr t :: error + state)"
  then have "t = g s"
    by simp
  then show "stream_extends s t"
    using assms by (intro stream_extends_same) simp_all
qed

lemma ext_put_a: "ext_stmt (put_a v)"
  unfolding ext_stmt_def put_a_def
  by (auto intro!: stream_extends_same split: option.splits if_splits)

lemma ext_put_z: "ext_stmt (put_z v)"
  unfolding ext_stmt_def put_z_def
  by (auto intro!: stream_extends_same split: option.splits if_splits)

lemma ext_poke_z_back: "ext_stmt (poke_z_back d v)"
  unfolding ext_stmt_def poke_z_back_def
  by (auto intro!: stream_extends_same split: option.splits if_splits)

lemma ext_memcpy_3_from_2: "ext_stmt (\<lambda>s. memcpy_3_from_2 (dst s) (src s) (n s) s)"
  unfolding ext_stmt_def memcpy_3_from_2_def
  by (auto intro!: stream_extends_same split: option.splits if_splits)

lemma ext_memcpy_a: "ext_stmt (memcpy_a bs n)"
  unfolding ext_stmt_def memcpy_a_def
  by (auto intro!: stream_extends_same split: option.splits if_splits)

lemma ext_advance_z: "ext_stmt (\<lambda>s. advance_z (n s) s)"
  unfolding ext_stmt_def advance_z_def
  by (auto intro!: stream_extends_same split: option.splits if_splits)

lemma ext_advance_z_const: "ext_stmt (advance_z n)"
  using ext_advance_z [of "\<lambda>_. n"] .

lemma ext_retreat_a: "ext_stmt retreat_a"
  unfolding ext_stmt_def retreat_a_def
  by (auto intro!: stream_extends_same split: option.splits if_splits)

lemma ext_fail: "ext_stmt (fail opened str)"
  unfolding ext_stmt_def fail_def
  by (auto intro!: stream_extends_same split: option.splits if_splits)

lemma ext_check: "ext_stmt (\<lambda>s. if c then Inr s else Inl e)"
  unfolding ext_stmt_def
  by (auto intro!: stream_extends_same split: option.splits if_splits)

lemma ext_write_buf8_loop:
  "write_buf8_loop mem sz i s = Inr t \<Longrightarrow> stream_extends s t"
proof (induction mem sz i s rule: write_buf8_loop.induct)
  case (1 mem sz i s)
  show ?case
  proof (cases "i < sz \<and> unat i < length mem")
    case True
    let ?s1 = "s\<lparr>init_2 := init_2 s @ [mem ! unat i],
                bin_2 := bin_2 s @ [mem ! unat i],
                bytes_written_2 := bytes_written_2 s + 1\<rparr>"
    from True "1.prems" have "write_buf8_loop mem sz (i + 1) ?s1 = Inr t"
      by (subst (asm) write_buf8_loop.simps) simp
    with True have "stream_extends ?s1 t"
      by (intro "1.IH") simp_all
    moreover have "stream_extends s ?s1"
      by (rule stream_extends_usb2 [of _ _ "[mem ! unat i]"]) simp_all
    ultimately show ?thesis
      by (blast intro: stream_extends_trans)
  next
    case False
    with "1.prems" have "t = s"
      by (subst (asm) write_buf8_loop.simps) (auto split: if_splits)
    then show ?thesis
      by simp
  qed
qed

lemma text_words_four:
  assumes "p + 4 \<le> length mem"
  shows "text_words (take 4 (drop p mem)) = [bswap (load32 mem p)]"
proof -
  have l: "length (take 4 (drop p mem)) = 4"
    using assms by simp
  have "load32 (take 4 (drop p mem)) 0 = load32 mem p"
    using assms by (simp add: load32_def)
  moreover have "text_words (take 4 (drop p mem)) = [bswap (load32 (take 4 (drop p mem)) 0)]"
    unfolding text_words_def l by simp
  ultimately show ?thesis
    by simp
qed

lemma ext_write_buf32_loop:
  "write_buf32_loop mem sz i p s = Inr t \<Longrightarrow> stream_extends s t"
proof (induction mem sz i p s rule: write_buf32_loop.induct)
  case (1 mem sz i p s)
  show ?case
  proof (cases "i < sz \<and> p + 4 \<le> length mem")
    case True
    let ?s1 = "s\<lparr>init_3 := init_3 s @ [bswap (load32 mem p)],
                bin_3 := bin_3 s @ take 4 (drop p mem),
                bytes_written_3 := bytes_written_3 s + 4\<rparr>"
    from True "1.prems" have "write_buf32_loop mem sz (i + 4) (p + 4) ?s1 = Inr t"
      by (subst (asm) write_buf32_loop.simps) simp
    with True have "stream_extends ?s1 t"
      by (intro "1.IH") simp_all
    moreover have "stream_extends s ?s1"
    proof (rule stream_extends_usb3 [of "take 4 (drop p mem)"])
      have l: "length (take 4 (drop p mem)) = 4"
        using True by (auto simp: min_def)
      show "4 dvd length (take 4 (drop p mem))"
        unfolding l by simp
      show "bytes_written_3 ?s1 = bytes_written_3 s + word_of_nat (length (take 4 (drop p mem)))"
        unfolding l by simp
      show "init_3 ?s1 = init_3 s @ text_words (take 4 (drop p mem))"
        using True by (simp add: text_words_four)
    qed simp_all
    ultimately show ?thesis
      by (blast intro: stream_extends_trans)
  next
    case False
    with "1.prems" have "t = s"
      by (subst (asm) write_buf32_loop.simps) (auto split: if_splits)
    then show ?thesis
      by simp
  qed
qed

lemma ext_write_buf8: "ext_stmt (write_buf8 mem sz)"
  unfolding ext_stmt_def write_buf8_def
  by (intro allI impI) (erule ext_write_buf8_loop)

lemma ext_write_buf32: "ext_stmt (write_buf32 mem sz)"
  unfolding ext_stmt_def write_buf32_def
  by (intro allI impI) (erule ext_write_buf32_loop)

lemma ext_write_buf: "ext_stmt (write_buf mem sz)"
  unfolding write_buf_def by (intro ext_steps) (simp add: ext_write_buf8 ext_write_buf32)

lemma ext_array_writers:
  "ext_stmt (\<lambda>s. write_buf8_buf_2 (n s) s)" "ext_stmt (\<lambda>s. write_buf32_buf_2 (n s) s)"
  "ext_stmt (\<lambda>s. write_buf32_buf_3 (n s) s)" "ext_stmt (\<lambda>s. write_buf_buf_2 (n s) s)"
proof -
  show "ext_stmt (\<lambda>s. write_buf8_buf_2 (n s) s)"
    using ext_write_buf8 unfolding ext_stmt_def write_buf8_buf_2_def
    by (intro allI impI) simp
  show "ext_stmt (\<lambda>s. write_buf32_buf_2 (n s) s)"
    using ext_write_buf32 unfolding ext_stmt_def write_buf32_buf_2_def
    by (intro allI impI) simp
  show "ext_stmt (\<lambda>s. write_buf32_buf_3 (n s) s)"
    using ext_write_buf32 unfolding ext_stmt_def write_buf32_buf_3_def
    by (intro allI impI) simp
  show "ext_stmt (\<lambda>s. write_buf_buf_2 (n s) s)"
    using ext_write_buf unfolding ext_stmt_def write_buf_buf_2_def
    by (intro allI impI) simp
qed

lemma ext_array_writers_const:
  "ext_stmt (write_buf8_buf_2 sz)" "ext_stmt (write_buf32_buf_2 sz)"
  "ext_stmt (write_buf32_buf_3 sz)" "ext_stmt (write_buf_buf_2 sz)"
  using ext_array_writers [of "\<lambda>_. sz"] by simp_all

lemma ext_push_z: 
  "ext_stmt (\<lambda>s. case z_minus_buf_3 s of Inl e \<Rightarrow> Inl e | Inr n \<Rightarrow> write_buf32_buf_3 n s)"
  using ext_array_writers_const(3) unfolding ext_stmt_def
  by (auto split: sum.splits)

lemma ext_set_i_3:
  "ext_stmt (\<lambda>s. case z_minus_buf_3 s of Inl e \<Rightarrow> Inl e | Inr n \<Rightarrow> Inr (s\<lparr>i_3 := n\<rparr>))"
  unfolding ext_stmt_def
  by (auto intro!: stream_extends_same split: sum.splits)

lemmas ext_simps = ext_ok_same ext_put_a ext_put_z ext_poke_z_back ext_memcpy_3_from_2
  ext_memcpy_a ext_advance_z ext_advance_z_const ext_retreat_a ext_fail ext_check
  ext_print_offsets ext_write_buf8 ext_write_buf32 ext_write_buf ext_array_writers
  ext_array_writers_const ext_push_z ext_set_i_3

lemma steps_extends: "list_all ext_stmt fs \<Longrightarrow> steps fs s = Inr t \<Longrightarrow> stream_extends s t"
  using ext_steps [of fs] unfolding ext_stmt_def by blast

lemma ext_add_device_qual:
  "ext_stmt (add_device_qual usb_spec class_code subclass protocol_code max_size_ep0
     num_possible_config)"
  unfolding add_device_qual_def by (intro ext_steps) (simp add: ext_simps)

lemma ext_add_device_descr:
  "ext_stmt (add_device_descr usb_spec class_code subclass protocol_code max_size_ep0 vid pid
     dev_num idx_mfg idx_prod idx_serial num_possible_config)"
  unfolding add_device_descr_def by (intro ext_steps) (simp add: ext_simps ext_add_device_qual)

lemma ext_add_config_start: "ext_stmt (add_config_start usb_spec attrib power_ma num_endpoints)"
  unfolding add_config_start_def by (intro ext_steps) (simp add: ext_simps)

lemma ext_add_endpoint:
  "ext_stmt (add_endpoint idx dir attrib max_pkt interval max_burst attrib_3 bytes_per_interval)"
  unfolding ext_stmt_def
proof (intro allI impI)
  fix s t
  assume r: "add_endpoint idx dir attrib max_pkt interval max_burst attrib_3 bytes_per_interval s
    = Inr t"
  show "stream_extends s t"
    using r unfolding add_endpoint_def Let_def
    by (elim steps_extends [rotated]) (simp add: ext_simps)
qed

lemma ext_add_config_end: "ext_stmt add_config_end"
  unfolding ext_stmt_def
proof (intro allI impI)
  fix s t
  assume r: "add_config_end s = Inr t"
  show "stream_extends s t"
    using r unfolding add_config_end_def Let_def
    by (elim steps_extends [rotated]) (simp add: ext_simps)
qed

lemma ext_add_bos: "ext_stmt add_bos"
  unfolding add_bos_def by (intro ext_steps) (simp add: ext_simps)

lemma ext_add_string: "ext_stmt (add_string w idx str)"
  unfolding add_string_def Let_def by (intro ext_steps) (simp add: ext_simps)

lemma ext_add_set: "ext_stmt (add_set after0 after1)"
  unfolding add_set_def by (intro ext_steps) (simp add: ext_simps)

lemma ext_print_config_len: "ext_stmt print_config_len"
  unfolding ext_stmt_def
proof (intro allI impI)
  fix s t
  assume r: "print_config_len s = Inr t"
  show "stream_extends s t"
    using r unfolding print_config_len_def Let_def
    by (elim steps_extends [rotated]) (simp add: ext_simps)
qed

lemma ext_print_bos_len: "ext_stmt print_bos_len"
  unfolding ext_stmt_def
proof (intro allI impI)
  fix s t
  assume r: "print_bos_len s = Inr t"
  show "stream_extends s t"
    using r unfolding print_bos_len_def Let_def
    by (elim steps_extends [rotated]) (simp add: ext_simps)
qed

lemma ext_main_emit: "ext_stmt (main_emit w fopen_ok after0 after1)"
  unfolding main_emit_def
  by (intro ext_steps)
    (simp add: ext_simps ext_add_device_descr ext_add_config_start ext_add_endpoint
      ext_add_config_end ext_print_config_len ext_add_bos ext_print_bos_len ext_add_string
      ext_add_set)

lemma ext_pad_2_aux:
  assumes "pad_2 s0 = Some r0"
  shows "\<forall>t. r0 = Inr t \<longrightarrow> stream_extends s0 t"
proof (rule pad_2.raw_induct [OF _ assms])
  fix pad s r
  assume 1: "\<And>x y. pad x = Some y \<Longrightarrow> \<forall>t. y = Inr t \<longrightarrow> stream_extends x t"
    "(if unat (bytes_written_2 s) < 2 ^ unat (bitwidth_2 s)
      then case write_buf8 [0x00, 0x00] 1 s of Inl e \<Rightarrow> Some (Inl e) | Inr s' \<Rightarrow> pad s'
      else Some (Inr s)) = Some r"
  show "\<forall>t. r = Inr t \<longrightarrow> stream_extends s t"
  proof (cases "unat (bytes_written_2 s) < 2 ^ unat (bitwidth_2 s)")
    case True
    show ?thesis
    proof (intro allI impI)
      fix t
      assume rt: "r = Inr t"
      from True 1(2) rt obtain s' where w: "write_buf8 [0x00, 0x00] 1 s = Inr s'"
        and p: "pad s' = Some r"
        by (auto split: sum.splits)
      from w have "stream_extends s s'"
        using ext_write_buf8 unfolding ext_stmt_def by blast
      moreover from 1(1) [OF p] rt have "stream_extends s' t"
        by simp
      ultimately show "stream_extends s t"
        by (rule stream_extends_trans)
    qed
  next
    case False
    with 1(2) have "r = Inr s"
      by simp
    then show ?thesis
      by (simp add: stream_extends_refl)
  qed
qed

lemma ext_pad_3_aux:
  assumes "pad_3 s0 = Some r0"
  shows "\<forall>t. r0 = Inr t \<longrightarrow> stream_extends s0 t"
proof (rule pad_3.raw_induct [OF _ assms])
  fix pad s r
  assume 1: "\<And>x y. pad x = Some y \<Longrightarrow> \<forall>t. y = Inr t \<longrightarrow> stream_extends x t"
    "(if unat (bytes_written_3 s) < 2 ^ unat (bitwidth_3 s) * 4
      then case write_buf32 [0x00, 0x00, 0x00, 0x00, 0x00] 1 s of Inl e \<Rightarrow> Some (Inl e) | Inr s' \<Rightarrow> pad s'
      else Some (Inr s)) = Some r"
  show "\<forall>t. r = Inr t \<longrightarrow> stream_extends s t"
  proof (cases "unat (bytes_written_3 s) < 2 ^ unat (bitwidth_3 s) * 4")
    case True
    show ?thesis
    proof (intro allI impI)
      fix t
      assume rt: "r = Inr t"
      from True 1(2) rt obtain s' where w: "write_buf32 [0x00, 0x00, 0x00, 0x00, 0x00] 1 s = Inr s'"
        and p: "pad s' = Some r"
        by (auto split: sum.splits)
      from w have "stream_extends s s'"
        using ext_write_buf32 unfolding ext_stmt_def by blast
      moreover from 1(1) [OF p] rt have "stream_extends s' t"
        by simp
      ultimately show "stream_extends s t"
        by (rule stream_extends_trans)
    qed
  next
    case False
    with 1(2) have "r = Inr s"
      by simp
    then show ?thesis
      by (simp add: stream_extends_refl)
  qed
qed

lemma ext_pad: "pad s = Some (Inr t) \<Longrightarrow> stream_extends s t"
proof -
  assume p: "pad s = Some (Inr t)"
  then obtain s' where p2: "pad_2 s = Some (Inr s')" and p3: "pad_3 s' = Some (Inr t)"
    unfolding pad_def by (auto split: option.splits sum.splits)
  from ext_pad_2_aux [OF p2] have "stream_extends s s'"
    by simp
  moreover from ext_pad_3_aux [OF p3] have "stream_extends s' t"
    by simp
  ultimately show ?thesis
    by (rule stream_extends_trans)
qed

lemma ext_main:
  assumes "main w fopen_ok after0 after1 = Some (Inr t)"
  shows "stream_extends init_state t"
proof -
  from assms obtain s where e: "main_emit w fopen_ok after0 after1 init_state = Inr s"
    and p: "pad s = Some (Inr t)"
    unfolding main_def by (auto split: sum.splits)
  from e have "stream_extends init_state s"
    using ext_main_emit unfolding ext_stmt_def by blast
  moreover from p have "stream_extends s t"
    by (rule ext_pad)
  ultimately show ?thesis
    by (rule stream_extends_trans)
qed

lemma ext_call: "ext_stmt (call_stmt c)"
  by (cases c)
    (simp_all add: ext_write_buf8 ext_write_buf32 ext_write_buf ext_print_offsets
      ext_add_device_qual ext_add_device_descr ext_add_config_start ext_add_endpoint
      ext_add_config_end ext_add_bos ext_add_string ext_add_set)

lemma ext_run: "run cs s = Inr t \<Longrightarrow> stream_extends s t"
  unfolding run_def
  by (erule steps_extends [rotated]) (simp add: list_all_iff ext_call)


section \<open>The reversal of a word\<close>

lemma ff_masks: "(0xff :: u32) = mask 8" "(0xff00 :: u32) = push_bit 8 (mask 8)"
  "(0xff0000 :: u32) = push_bit 16 (mask 8)" "(0xff000000 :: u32) = push_bit 24 (mask 8)"
  by (simp_all add: mask_eq_exp_minus_1)

lemma byte0:
  "(ucast (b0::u8) OR push_bit 8 (ucast (b1::u8)) OR push_bit 16 (ucast (b2::u8))
      OR push_bit 24 (ucast (b3::u8))) AND (mask 8 :: u32) = ucast b0"
  apply (rule bit_word_eqI)
  apply (simp add: bit_simps)
  apply (auto dest: bit_imp_le_length)
  done

lemma byte1:
  "(ucast (b0::u8) OR push_bit 8 (ucast (b1::u8)) OR push_bit 16 (ucast (b2::u8))
      OR push_bit 24 (ucast (b3::u8))) AND (push_bit 8 (mask 8) :: u32) = push_bit 8 (ucast b1)"
  apply (rule bit_word_eqI)
  apply (simp add: bit_simps)
  apply (auto dest: bit_imp_le_length)
  done

lemma byte2:
  "(ucast (b0::u8) OR push_bit 8 (ucast (b1::u8)) OR push_bit 16 (ucast (b2::u8))
      OR push_bit 24 (ucast (b3::u8))) AND (push_bit 16 (mask 8) :: u32) = push_bit 16 (ucast b2)"
  apply (rule bit_word_eqI)
  apply (simp add: bit_simps)
  apply (auto dest: bit_imp_le_length)
  done

lemma byte3:
  "(ucast (b0::u8) OR push_bit 8 (ucast (b1::u8)) OR push_bit 16 (ucast (b2::u8))
      OR push_bit 24 (ucast (b3::u8))) AND (push_bit 24 (mask 8) :: u32) = push_bit 24 (ucast b3)"
  apply (rule bit_word_eqI)
  apply (simp add: bit_simps)
  apply (auto dest: bit_imp_le_length)
  done

lemma drop_push_16: "drop_bit 8 (push_bit 16 (ucast (b::u8)) :: u32) = push_bit 8 (ucast b)"
  apply (rule bit_word_eqI)
  apply (simp add: bit_simps)
  apply (auto dest: bit_imp_le_length)
  done

lemma drop_push_24: "drop_bit 24 (push_bit 24 (ucast (b::u8)) :: u32) = ucast b"
  apply (rule bit_word_eqI)
  apply (simp add: bit_simps)
  apply (auto dest: bit_imp_le_length)
  done

lemma bswap_bytes:
  "bswap (ucast (b0::u8) OR push_bit 8 (ucast (b1::u8)) OR push_bit 16 (ucast (b2::u8))
      OR push_bit 24 (ucast (b3::u8)))
   = ucast b3 OR push_bit 8 (ucast b2) OR push_bit 16 (ucast b1) OR push_bit 24 (ucast b0)"
  unfolding bswap_def ff_masks byte0 byte1 byte2 byte3 drop_push_16 drop_push_24 push_bit_push_bit
  by (simp add: ac_simps)

lemma take_four:
  assumes "p + 4 \<le> length m"
  shows "take 4 (drop p m) = [m ! p, m ! (p + 1), m ! (p + 2), m ! (p + 3)]"
proof -
  have "drop p m = m ! p # drop (p + 1) m"
    using assms by (simp add: Cons_nth_drop_Suc)
  moreover have "drop (p + 1) m = m ! (p + 1) # drop (p + 2) m"
    using assms by (simp add: Cons_nth_drop_Suc)
  moreover have "drop (p + 2) m = m ! (p + 2) # drop (p + 3) m"
    using assms Cons_nth_drop_Suc [of "p + 2" m] by (simp add: numeral_3_eq_3)
  moreover have "drop (p + 3) m = m ! (p + 3) # drop (p + 4) m"
    using assms Cons_nth_drop_Suc [of "p + 3" m] by (simp add: numeral_eq_Suc)
  ultimately show ?thesis
    by (simp add: numeral_eq_Suc)
qed

lemma bswap_load32:
  assumes "p + 4 \<le> length m"
  shows "bswap (load32 m p) = load32 (rev (take 4 (drop p m))) 0"
    and "bswap (bswap (load32 m p)) = load32 m p"
proof -
  show "bswap (load32 m p) = load32 (rev (take 4 (drop p m))) 0"
    unfolding take_four [OF assms] by (simp add: load32_def bswap_bytes)
  show "bswap (bswap (load32 m p)) = load32 m p"
    by (simp add: load32_def bswap_bytes)
qed

section \<open>The USB3 text file and the binary file\<close>

lemma main_eff:
  assumes "2 \<le> w" and "fopen_ok filename_usb2_init" and "fopen_ok filename_usb3_init"
    and "fopen_ok filename_usb2_bin" and "fopen_ok filename_usb3_bin"
    and "fopen_ok filename_descrip_vh"
    and "2 \<le> length after0" and "2 \<le> length after1"
  shows "\<exists>t. main w fopen_ok after0 after1 = Some (Inr t)
     \<and> descrip_vh t = main_table
     \<and> length (bin_2 t) = 256 \<and> length (bin_3 t) = 512"
proof -
  from main_emit_eff [OF assms] obtain s where e: "main_emit w fopen_ok after0 after1 init_state = Inr s"
    and s: "descrip_vh s = main_table" "bitwidth_2 s = 8" "bitwidth_3 s = 7"
      "bytes_written_2 s = 173" "bytes_written_3 s = 212"
      "length (bin_2 s) = 173" "length (bin_3 s) = 212"
    by blast
  have b: "unat (bitwidth_2 s) < 32" "unat (bitwidth_3 s) < 30"
    by (simp_all add: s)
  from pad_eff [OF b] obtain t where p: "pad s = Some (Inr t)"
    and t: "descrip_vh t = descrip_vh s"
      "bin_2 t = bin_2 s @ replicate (2 ^ unat (bitwidth_2 s) - unat (bytes_written_2 s)) 0"
      "bin_3 t = bin_3 s @ replicate
           (4 * ((2 ^ unat (bitwidth_3 s) * 4 - unat (bytes_written_3 s) + 3) div 4)) 0"
    by blast
  have "main w fopen_ok after0 after1 = Some (Inr t)"
    by (simp add: main_def e p)
  moreover have "descrip_vh t = main_table"
    by (simp add: t s)
  moreover have "length (bin_2 t) = 256"
    unfolding t by (simp add: s)
  moreover have "length (bin_3 t) = 512"
    unfolding t by (simp add: s)
  ultimately show ?thesis
    by blast
qed

lemma entry_names_main_table:
  "entry_names main_table =
     [''DEVICE'', ''DEVICE_QUAL'', ''CONFIG'', ''CONFIG_LEN'', ''BOS'', ''BOS_LEN'',
      ''STRING0'', ''STRING1'', ''STRING2'', ''STRING3'', ''CONFUNSET'', ''CONFSET'', ''EOF'']"
  by (simp add: entry_names_def main_table_def)

text \<open>
  C3. Whatever calls of the generator's functions are run from whatever state, and in the
  whole run of \<^verbatim>\<open>main\<close>, the two USB3 files grow together. Let \<open>b\<close> be the bytes appended
  to the binary file and \<open>ws\<close> the words appended to the text file: \<open>b\<close> has four bytes
  for every word of \<open>ws\<close>, and the word with address \<open>k\<close> is the value of the bytes
  \<open>4 * k\<close> to \<open>4 * k + 3\<close> of \<open>b\<close> taken in the reverse order. It is the reversal \<open>bswap\<close>
  of the word that \<^verbatim>\<open>write_buf32\<close> read from these bytes, and reversing it once more gives
  that word back.
\<close>

theorem usb3_text_word_reverses_binary_word:
  assumes "run cs s = Inr t \<or> s = init_state \<and> main w fopen_ok after0 after1 = Some (Inr t)"
  shows "\<exists>b ws. bin_3 t = bin_3 s @ b \<and> init_3 t = init_3 s @ ws
     \<and> length b = 4 * length ws
     \<and> (\<forall>k < length ws.
           ws ! k = load32 (rev (take 4 (drop (4 * k) b))) 0
         \<and> ws ! k = bswap (load32 b (4 * k))
         \<and> bswap (ws ! k) = load32 b (4 * k))"
proof -
  from assms have "stream_extends s t"
    using ext_run ext_main by blast
  then obtain b where d: "4 dvd length b" and b: "bin_3 t = bin_3 s @ b"
    and i: "init_3 t = init_3 s @ text_words b"
    unfolding stream_extends_def by blast
  from d obtain m where m: "length b = 4 * m"
    by (auto simp: dvd_def)
  have lw: "length (text_words b) = m"
    by (simp add: length_text_words m)
  have l: "length b = 4 * length (text_words b)"
    by (simp only: lw m)
  have "text_words b ! k = load32 (rev (take 4 (drop (4 * k) b))) 0
      \<and> text_words b ! k = bswap (load32 b (4 * k))
      \<and> bswap (text_words b ! k) = load32 b (4 * k)" if "k < length (text_words b)" for k
  proof -
    from that have km: "k < m"
      by (simp only: lw)
    then have k: "k < length b div 4" and p: "4 * k + 4 \<le> length b"
      by (simp_all add: m)
    have n: "text_words b ! k = bswap (load32 b (4 * k))"
      using k by (rule nth_text_words)
    show ?thesis
      unfolding n by (intro conjI bswap_load32 [OF p] refl)
  qed
  with b i l show ?thesis
    by blast
qed

text \<open>
  An instance: a push of five bytes out of eight from the initial globals writes two
  words, and the run of \<^verbatim>\<open>main\<close> ends with 512 bytes and 128 words.
\<close>

theorem usb3_text_word_reverses_binary_word_witness:
  "run [Write_buf32 [0x12, 0x01, 0x00, 0x03, 0xFF, 0xFF, 0xFF, 0x09] 5] init_state
     = Inr (init_state\<lparr>init_3 := [0x12010003, 0xFFFFFF09],
          bin_3 := [0x12, 0x01, 0x00, 0x03, 0xFF, 0xFF, 0xFF, 0x09], bytes_written_3 := 8\<rparr>)
   \<and> load32 (rev (take 4 (drop 4 [0x12, 0x01, 0x00, 0x03, 0xFF, 0xFF, 0xFF, 0x09]))) 0
       = 0xFFFFFF09
   \<and> bswap 0xFFFFFF09 = load32 [0x12, 0x01, 0x00, 0x03, 0xFF, 0xFF, 0xFF, 0x09] 4
   \<and> (\<exists>u. main 2 (\<lambda>_. True) [0x00, 0x00] [0x00, 0x00] = Some (Inr u)
        \<and> length (bin_3 u) = 512 \<and> length (init_3 u) = 128)"
proof -
  let ?b = "[0x12, 0x01, 0x00, 0x03, 0xFF, 0xFF, 0xFF, 0x09] :: u8 list"
  let ?t = "init_state\<lparr>init_3 := [0x12010003, 0xFFFFFF09], bin_3 := ?b, bytes_written_3 := 8\<rparr>"
  have tw: "text_words ?b = [0x12010003, 0xFFFFFF09]"
    by code_simp
  have r: "run [Write_buf32 ?b 5] init_state = Inr ?t"
    by (simp add: run_def write_buf32_text nwords_def tw init_state_def)
  from usb3_text_word_reverses_binary_word [of "[Write_buf32 ?b 5]" init_state ?t]
  obtain b ws where A: "bin_3 ?t = bin_3 init_state @ b" and B: "init_3 ?t = init_3 init_state @ ws"
    and C: "\<forall>k < length ws. ws ! k = load32 (rev (take 4 (drop (4 * k) b))) 0
         \<and> ws ! k = bswap (load32 b (4 * k)) \<and> bswap (ws ! k) = load32 b (4 * k)"
    using r by blast
  have b: "b = ?b"
    using A by (simp add: init_state_def)
  have ws: "ws = [0x12010003, 0xFFFFFF09]"
    using B by (simp add: init_state_def)
  have "1 < length ws"
    by (simp add: ws)
  note D = C [rule_format, OF this]
  note D [THEN conjunct1] D [THEN conjunct2, THEN conjunct2]
  then have "load32 (rev (take 4 (drop 4 ?b))) 0 = 0xFFFFFF09"
    and "bswap 0xFFFFFF09 = load32 ?b 4"
    unfolding b ws by simp_all
  moreover have "\<exists>u. main 2 (\<lambda>_. True) [0x00, 0x00] [0x00, 0x00] = Some (Inr u)
        \<and> length (bin_3 u) = 512 \<and> length (init_3 u) = 128"
  proof -
    have "\<exists>u. main 2 (\<lambda>_. True) [0x00, 0x00] [0x00, 0x00] = Some (Inr u)
        \<and> descrip_vh u = main_table \<and> length (bin_2 u) = 256 \<and> length (bin_3 u) = 512"
      by (rule main_eff) simp_all
    then obtain u where m: "main 2 (\<lambda>_. True) [0x00, 0x00] [0x00, 0x00] = Some (Inr u)"
      and l: "length (bin_3 u) = 512"
      by blast
    from usb3_text_word_reverses_binary_word [of _ init_state u 2 "\<lambda>_. True" "[0x00, 0x00]"
        "[0x00, 0x00]"] m
    obtain b' ws' where "bin_3 u = bin_3 init_state @ b'" "init_3 u = init_3 init_state @ ws'"
      "length b' = 4 * length ws'"
      by blast
    then have "length (bin_3 u) = 4 * length (init_3 u)"
      by (simp add: init_state_def)
    with l have "length (init_3 u) = 128"
      by simp
    with m l show ?thesis
      by blast
  qed
  ultimately show ?thesis
    using r by (intro conjI)
qed

section \<open>Whole words and the offset table\<close>











text \<open>
  C8. The table only grows at its end: after any sequence of calls from any state, and
  after the padding, the table is the one before with new entries behind it, so an entry
  once written keeps its place and its content. The run of \<^verbatim>\<open>main\<close>, where the files can
  be opened, a wide character has at least two bytes and two bytes are readable behind
  each of the literals of \<^verbatim>\<open>add_set\<close>, ends with the table \<open>main_table\<close>; its names, in
  their order, are DEVICE, DEVICE_QUAL, CONFIG, CONFIG_LEN, BOS, BOS_LEN, STRING0 to
  STRING3, CONFUNSET, CONFSET and EOF.
\<close>

theorem offset_table_in_emission_order:
  "(run cs s = Inr t \<or> pad s = Some (Inr t) \<longrightarrow> (\<exists>new. descrip_vh t = descrip_vh s @ new))
   \<and> (2 \<le> w \<and> fopen_ok filename_usb2_init \<and> fopen_ok filename_usb3_init
        \<and> fopen_ok filename_usb2_bin \<and> fopen_ok filename_usb3_bin
        \<and> fopen_ok filename_descrip_vh \<and> 2 \<le> length after0 \<and> 2 \<le> length after1 \<longrightarrow>
        (\<exists>u. main w fopen_ok after0 after1 = Some (Inr u)
           \<and> descrip_vh u = main_table
           \<and> entry_names (descrip_vh u) =
               [''DEVICE'', ''DEVICE_QUAL'', ''CONFIG'', ''CONFIG_LEN'', ''BOS'', ''BOS_LEN'',
                ''STRING0'', ''STRING1'', ''STRING2'', ''STRING3'', ''CONFUNSET'', ''CONFSET'',
                ''EOF'']))"
proof (intro conjI impI)
  assume "run cs s = Inr t \<or> pad s = Some (Inr t)"
  then have "stream_extends s t"
    using ext_run ext_pad by blast
  then show "\<exists>new. descrip_vh t = descrip_vh s @ new"
    unfolding stream_extends_def by blast
next
  assume h: "2 \<le> w \<and> fopen_ok filename_usb2_init \<and> fopen_ok filename_usb3_init
        \<and> fopen_ok filename_usb2_bin \<and> fopen_ok filename_usb3_bin
        \<and> fopen_ok filename_descrip_vh \<and> 2 \<le> length after0 \<and> 2 \<le> length after1"
  then have "\<exists>u. main w fopen_ok after0 after1 = Some (Inr u) \<and> descrip_vh u = main_table
     \<and> length (bin_2 u) = 256 \<and> length (bin_3 u) = 512"
    by (intro main_eff) simp_all
  then obtain u where "main w fopen_ok after0 after1 = Some (Inr u)" "descrip_vh u = main_table"
    by blast
  then show "\<exists>u. main w fopen_ok after0 after1 = Some (Inr u)
           \<and> descrip_vh u = main_table
           \<and> entry_names (descrip_vh u) =
               [''DEVICE'', ''DEVICE_QUAL'', ''CONFIG'', ''CONFIG_LEN'', ''BOS'', ''BOS_LEN'',
                ''STRING0'', ''STRING1'', ''STRING2'', ''STRING3'', ''CONFUNSET'', ''CONFSET'',
                ''EOF'']"
    by (intro exI [of _ u]) (simp add: entry_names_main_table)
qed


text \<open>
  An instance: an entry recorded behind an earlier one, and the run of \<^verbatim>\<open>main\<close> with
  2-byte wide characters and zero bytes behind the literals.
\<close>

theorem offset_table_in_emission_order_witness:
  "run [Print_offsets ''EOF     '' 1 1]
      (init_state\<lparr>bitwidth_2 := 8, bitwidth_3 := 7,
         descrip_vh := [\<lparr>target = USB2, msb = 7, pname = ''DEVICE'', pvalue = 0\<rparr>]\<rparr>)
     = Inr (init_state\<lparr>bitwidth_2 := 8, bitwidth_3 := 7,
         descrip_vh := [\<lparr>target = USB2, msb = 7, pname = ''DEVICE'', pvalue = 0\<rparr>,
                        \<lparr>target = USB2, msb = 7, pname = ''EOF     '', pvalue = 0\<rparr>,
                        \<lparr>target = USB3, msb = 6, pname = ''EOF     '', pvalue = 0\<rparr>]\<rparr>)
   \<and> (2::nat) \<le> 2 \<and> 2 \<le> length [0x00, 0x00 :: u8]
   \<and> (\<exists>u. main 2 (\<lambda>_. True) [0x00, 0x00] [0x00, 0x00] = Some (Inr u)
        \<and> descrip_vh u = main_table
        \<and> entry_names (descrip_vh u) =
               [''DEVICE'', ''DEVICE_QUAL'', ''CONFIG'', ''CONFIG_LEN'', ''BOS'', ''BOS_LEN'',
                ''STRING0'', ''STRING1'', ''STRING2'', ''STRING3'', ''CONFUNSET'', ''CONFSET'',
                ''EOF''])"
proof -
  let ?s = "init_state\<lparr>bitwidth_2 := 8, bitwidth_3 := 7,
         descrip_vh := [\<lparr>target = USB2, msb = 7, pname = ''DEVICE'', pvalue = 0\<rparr>]\<rparr>"
  let ?t = "init_state\<lparr>bitwidth_2 := 8, bitwidth_3 := 7,
         descrip_vh := [\<lparr>target = USB2, msb = 7, pname = ''DEVICE'', pvalue = 0\<rparr>,
                        \<lparr>target = USB2, msb = 7, pname = ''EOF     '', pvalue = 0\<rparr>,
                        \<lparr>target = USB3, msb = 6, pname = ''EOF     '', pvalue = 0\<rparr>]\<rparr>"
  have r: "run [Print_offsets ''EOF     '' 1 1] ?s = Inr ?t"
    by (simp add: run_def ok_def print_offsets_def init_state_def)
  note T = offset_table_in_emission_order [where cs = "[Print_offsets ''EOF     '' 1 1]"
      and s = ?s and t = ?t and w = 2 and fopen_ok = "\<lambda>_. True"
      and ?after0.0 = "[0x00, 0x00]" and ?after1.0 = "[0x00, 0x00]"]
  have "\<exists>u. main 2 (\<lambda>_. True) [0x00, 0x00] [0x00, 0x00] = Some (Inr u)
        \<and> descrip_vh u = main_table
        \<and> entry_names (descrip_vh u) =
               [''DEVICE'', ''DEVICE_QUAL'', ''CONFIG'', ''CONFIG_LEN'', ''BOS'', ''BOS_LEN'',
                ''STRING0'', ''STRING1'', ''STRING2'', ''STRING3'', ''CONFUNSET'', ''CONFSET'',
                ''EOF'']"
    by (rule T [THEN conjunct2, rule_format]) simp
  with r show ?thesis
    by simp
qed

end
